theory Spec2Isabelle
  imports Main
begin

section \<open>Python values, exceptions and dictionaries\<close>

text \<open>
  The exceptions the storage code can raise. \<open>KeyError\<close> is what the specification calls
  NotFound; \<open>ValueError\<close> is raised both by \<open>get_links\<close> ("no backward nodes", the
  specification's UnsupportedOperation) and by the tuple unpacking of a \<open>for\<close> header
  (the specification's StructuralError). \<open>OutOfModel\<close> is not a Python exception: it marks
  an input whose tokens or counts are not strings and integers, which Python would
  store unchanged and which the typed data model below cannot hold.
\<close>

datatype error =
  KeyError | ValueError | TypeError | StopIteration | AttributeError | AssertionError
  | OutOfModel

text \<open>The components of the tuples handed to the generator: tokens and weights.\<close>

datatype pyval = PNone | PStr string | PInt int

text \<open>
  A string is a list of characters, each a code point below U+0100. A token is a string
  or \<open>None\<close>; so is a dictionary key after hydration.
\<close>

type_synonym token = "string option"

fun tok_val :: "token \<Rightarrow> pyval" where
  "tok_val None = PNone"
| "tok_val (Some s) = PStr s"

text \<open>
  A \<open>dict\<close> is an association list in insertion order with one pair per key.
  \<open>d[k] = v\<close> replaces the value of a present key where it stands and appends an absent
  one; \<open>d[k]\<close> and \<open>d.get(k)\<close> are \<open>map_of d k\<close>.
\<close>

primrec dict_set :: "'k \<Rightarrow> 'v \<Rightarrow> ('k \<times> 'v) list \<Rightarrow> ('k \<times> 'v) list" where
  "dict_set k v [] = [(k, v)]"
| "dict_set k v (p # ps) = (if fst p = k then (k, v) # ps else p # dict_set k v ps)"

text \<open>A dictionary display or comprehension: the items are stored one after the other.\<close>

definition dict_of_items :: "('k \<times> 'v) list \<Rightarrow> ('k \<times> 'v) list" where
  "dict_of_items kvs = foldl (\<lambda>d kv. dict_set (fst kv) (snd kv) d) [] kvs"


section \<open>The store\<close>

type_synonym counter = "(token \<times> int) list"
type_synonym dataset = "(token \<times> counter) list"
type_synonym data = "(string \<times> dataset) list"

text \<open>JSON documents, which are also the settings (without floating-point numbers).\<close>

datatype json =
  JNull | JBool bool | JInt int | JStr string | JArr "json list" | JObj "(string \<times> json) list"

text \<open>
  The attributes of \<open>JsonStorage\<close>. Modelled from the spec: the base class \<open>Storage\<close> is
  not among the sources; it keeps the settings it is given and owns the separator that
  \<open>join_state\<close> joins with.
\<close>

record storage =
  settings :: json
  state_separator :: string
  nodes :: data
  backward :: "data option"

text \<open>
  Modelled from the spec: \<open>join_state\<close> of the base class, "joins with the dataset's
  separator", that is \<open>separator.join(tokens)\<close>.
\<close>

fun str_join :: "string \<Rightarrow> string list \<Rightarrow> string" where
  "str_join sep [] = []"
| "str_join sep [x] = x"
| "str_join sep (x # y # ys) = x @ sep @ str_join sep (y # ys)"

definition join_state :: "storage \<Rightarrow> string list \<Rightarrow> string" where
  "join_state st state = str_join (state_separator st) state"

text \<open>\<open>str.join\<close> accepts strings only: any other item is a \<open>TypeError\<close>.\<close>

fun str_items :: "pyval list \<Rightarrow> error + string list" where
  "str_items [] = Inr []"
| "str_items (PStr s # vs) = (case str_items vs of Inl e \<Rightarrow> Inl e | Inr ss \<Rightarrow> Inr (s # ss))"
| "str_items (v # vs) = Inl TypeError"

subsection \<open>Datasets\<close>

definition do_get_dataset ::
  "data option \<Rightarrow> string \<Rightarrow> bool \<Rightarrow> error + (data option \<times> dataset option)" where
  "do_get_dataset data key create =
     (case data of
        None \<Rightarrow> Inr (None, None)
      | Some d \<Rightarrow>
          if \<not> create then
            (case map_of d key of None \<Rightarrow> Inl KeyError | Some v \<Rightarrow> Inr (Some d, Some v))
          else
            (case map_of d key of
               None \<Rightarrow> Inr (Some (dict_set key [] d), Some [])
             | Some v \<Rightarrow> Inr (Some d, Some v)))"

text \<open>
  \<open>get_dataset\<close> returns the pair (forward dataset, backward dataset or \<open>None\<close>),
  here together with the store, in which a missing dataset has been created when
  \<open>create\<close> is set. The forward map is resolved first.
\<close>

definition get_dataset ::
  "storage \<Rightarrow> string \<Rightarrow> bool \<Rightarrow> error + (storage \<times> dataset \<times> dataset option)" where
  "get_dataset st key create =
     (case do_get_dataset (Some (nodes st)) key create of
        Inl e \<Rightarrow> Inl e
      | Inr (n, f) \<Rightarrow>
          (case do_get_dataset (backward st) key create of
             Inl e \<Rightarrow> Inl e
           | Inr (b, bw) \<Rightarrow>
               (case (n, f) of
                  (Some n', Some f') \<Rightarrow> Inr (st\<lparr>nodes := n', backward := b\<rparr>, f', bw)
                | _ \<Rightarrow> Inl TypeError)))"

subsection \<open>Link ingestion\<close>

text \<open>\<open>c[t] += n\<close> on a \<open>Counter\<close>: a missing token counts 0.\<close>

definition counter_add :: "counter \<Rightarrow> token \<Rightarrow> int \<Rightarrow> counter" where
  "counter_add c t n = dict_set t ((case map_of c t of None \<Rightarrow> 0 | Some m \<Rightarrow> m) + n) c"

definition add_link :: "dataset \<Rightarrow> token \<Rightarrow> token \<Rightarrow> int \<Rightarrow> dataset" where
  "add_link dataset source target count =
     (let dataset1 = (if map_of dataset source = None then dict_set source [] dataset
                      else dataset)
      in dict_set source
           (counter_add (case map_of dataset1 source of None \<Rightarrow> [] | Some c \<Rightarrow> c) target count)
           dataset1)"

text \<open>
  An item of the sequence given to \<open>add_links\<close>: a triple (dataset name, context tokens,
  target token), or a sequence of \<open>n\<close> components with \<open>n\<close> other than three, which the
  header \<open>for dataset, src, dst in links\<close> cannot unpack ("not enough values to unpack",
  "too many values to unpack"). Three components of other types than a triple's are
  outside the model.
\<close>

datatype link_item = Link string "string list" token | NotATriple nat

fun unpack3 :: "link_item \<Rightarrow> error + (string \<times> string list \<times> token)" where
  "unpack3 (Link dataset src dst) = Inr (dataset, src, dst)"
| "unpack3 (NotATriple n) = (if n = 3 then Inl OutOfModel else Inl ValueError)"

text \<open>
  One round of the loop of \<open>add_links\<close>. The result is the store as the round leaves it
  and the exception it raised, if any: what was written before a \<open>raise\<close> stays written.
  \<open>next(src2)\<close> on an empty context raises \<open>StopIteration\<close>.
\<close>

definition add_links_step :: "storage \<Rightarrow> string \<Rightarrow> link_item \<Rightarrow> storage \<times> error option" where
  "add_links_step st dataset_prefix item =
     (case unpack3 item of
        Inl e \<Rightarrow> (st, Some e)
      | Inr (dataset, src, dst) \<Rightarrow>
          (case get_dataset st (dataset_prefix @ dataset) True of
             Inl e \<Rightarrow> (st, Some e)
           | Inr (st1, forward, backward_ds) \<Rightarrow>
               (case (backward_ds, dst) of
                  (Some bw, Some d) \<Rightarrow>
                    (case src of
                       [] \<Rightarrow> (st1, Some StopIteration)
                     | dst2 # src2 \<Rightarrow>
                         (let st2 = st1\<lparr>backward :=
                                map_option
                                  (dict_set (dataset_prefix @ dataset)
                                     (add_link bw (Some (join_state st1 (src2 @ [d]))) (Some dst2) 1))
                                  (backward st1)\<rparr>
                          in (st2\<lparr>nodes :=
                                 dict_set (dataset_prefix @ dataset)
                                   (add_link forward (Some (join_state st2 src)) dst 1)
                                   (nodes st2)\<rparr>, None)))
                | _ \<Rightarrow>
                    (st1\<lparr>nodes :=
                        dict_set (dataset_prefix @ dataset)
                          (add_link forward (Some (join_state st1 src)) dst 1)
                          (nodes st1)\<rparr>, None))))"

fun add_links :: "storage \<Rightarrow> link_item list \<Rightarrow> string \<Rightarrow> storage \<times> error option" where
  "add_links st [] dataset_prefix = (st, None)"
| "add_links st (item # links) dataset_prefix =
     (case add_links_step st dataset_prefix item of
        (st', Some e) \<Rightarrow> (st', Some e)
      | (st', None) \<Rightarrow> add_links st' links dataset_prefix)"

subsection \<open>Queries\<close>

text \<open>
  \<open>str.lower\<close>, and \<open>sub in s\<close> on strings. A character is a code point below U+0100.
  Among these \<open>str.lower\<close> changes the capitals only, U+0041 to U+005A, U+00C0 to U+00D6
  and U+00D8 to U+00DE, each to the code point 32 above it, one character at a time.
\<close>

definition capitals :: string where
  "capitals =
     ''ABCDEFGHIJKLMNOPQRSTUVWXYZ'' @
     [CHR 0xC0, CHR 0xC1, CHR 0xC2, CHR 0xC3, CHR 0xC4, CHR 0xC5, CHR 0xC6, CHR 0xC7,
      CHR 0xC8, CHR 0xC9, CHR 0xCA, CHR 0xCB, CHR 0xCC, CHR 0xCD, CHR 0xCE, CHR 0xCF,
      CHR 0xD0, CHR 0xD1, CHR 0xD2, CHR 0xD3, CHR 0xD4, CHR 0xD5, CHR 0xD6, CHR 0xD8,
      CHR 0xD9, CHR 0xDA, CHR 0xDB, CHR 0xDC, CHR 0xDD, CHR 0xDE]"

definition smalls :: string where
  "smalls =
     ''abcdefghijklmnopqrstuvwxyz'' @
     [CHR 0xE0, CHR 0xE1, CHR 0xE2, CHR 0xE3, CHR 0xE4, CHR 0xE5, CHR 0xE6, CHR 0xE7,
      CHR 0xE8, CHR 0xE9, CHR 0xEA, CHR 0xEB, CHR 0xEC, CHR 0xED, CHR 0xEE, CHR 0xEF,
      CHR 0xF0, CHR 0xF1, CHR 0xF2, CHR 0xF3, CHR 0xF4, CHR 0xF5, CHR 0xF6, CHR 0xF8,
      CHR 0xF9, CHR 0xFA, CHR 0xFB, CHR 0xFC, CHR 0xFD, CHR 0xFE]"

definition lower_char :: "char \<Rightarrow> char" where
  "lower_char c = (case map_of (zip capitals smalls) c of None \<Rightarrow> c | Some l \<Rightarrow> l)"

definition lower :: "string \<Rightarrow> string" where
  "lower s = map lower_char s"

primrec starts_with :: "'a list \<Rightarrow> 'a list \<Rightarrow> bool" where
  "starts_with [] s = True"
| "starts_with (c # cs) s = (case s of [] \<Rightarrow> False | d # ds \<Rightarrow> c = d \<and> starts_with cs ds)"

primrec str_in :: "'a list \<Rightarrow> 'a list \<Rightarrow> bool" where
  "str_in sub [] = (sub = [])"
| "str_in sub (c # cs) = (starts_with sub (c # cs) \<or> str_in sub cs)"

text \<open>
  The comprehension of \<open>get_states\<close>: \<open>key.lower()\<close> on a key that is \<open>None\<close> raises
  \<open>AttributeError\<close>.
\<close>

fun matching_keys :: "string \<Rightarrow> token list \<Rightarrow> error + token list" where
  "matching_keys string [] = Inr []"
| "matching_keys string (None # keys) = Inl AttributeError"
| "matching_keys string (Some key # keys) =
     (case matching_keys string keys of
        Inl e \<Rightarrow> Inl e
      | Inr ks \<Rightarrow> Inr (if str_in string (lower key) then Some key # ks else ks))"

definition get_states :: "storage \<Rightarrow> string \<Rightarrow> string \<Rightarrow> error + token list" where
  "get_states st dataset string =
     (case get_dataset st dataset False of
        Inl e \<Rightarrow> Inl e
      | Inr (st', forward, backward_ds) \<Rightarrow> matching_keys (lower string) (map fst forward))"

text \<open>
  \<open>get_links\<close> takes the pair that \<open>get_dataset\<close> returned. \<open>dataset[int(backward)]\<close> is
  its first component for a forward query and its second for a backward one; subscripting
  \<open>None\<close> is a \<open>TypeError\<close>. Only the \<open>KeyError\<close> of a missing state is caught.
\<close>

definition subscript :: "dataset \<times> dataset option \<Rightarrow> bool \<Rightarrow> dataset option" where
  "subscript dataset backwards = (if backwards then snd dataset else Some (fst dataset))"

definition get_links ::
  "storage \<Rightarrow> dataset \<times> dataset option \<Rightarrow> pyval list \<Rightarrow> bool \<Rightarrow> error + (pyval \<times> pyval) list" where
  "get_links st dataset state backwards =
     (if backwards \<and> backward st = None then Inl ValueError
      else
        (case str_items state of
           Inl e \<Rightarrow> Inl e
         | Inr toks \<Rightarrow>
             (case subscript dataset backwards of
                None \<Rightarrow> Inl TypeError
              | Some d \<Rightarrow>
                  (case map_of d (Some (join_state st toks)) of
                     None \<Rightarrow> Inr []
                   | Some node \<Rightarrow> Inr (map (\<lambda>(w, num). (PInt num, tok_val w)) node)))))"

subsection \<open>Context windows\<close>

text \<open>
  A \<open>deque\<close> with a maximum length. \<open>append\<close> adds on the right and, when the deque has
  grown beyond \<open>maxlen\<close>, drops the leftmost element; \<open>appendleft\<close> is its mirror image.
\<close>

record 'a deque =
  items :: "'a list"
  maxlen :: nat

definition deque_append :: "'a deque \<Rightarrow> 'a \<Rightarrow> 'a deque" where
  "deque_append d x =
     (let xs = items d @ [x]
      in d\<lparr>items := (if length xs > maxlen d then tl xs else xs)\<rparr>)"

definition deque_appendleft :: "'a deque \<Rightarrow> 'a \<Rightarrow> 'a deque" where
  "deque_appendleft d x =
     (let xs = x # items d
      in d\<lparr>items := (if length xs > maxlen d then butlast xs else xs)\<rparr>)"

text \<open>\<open>deque(iterable, maxlen=n)\<close> appends the elements one by one.\<close>

definition deque_of :: "'a list \<Rightarrow> nat \<Rightarrow> 'a deque" where
  "deque_of xs n = foldl deque_append \<lparr>items = [], maxlen = n\<rparr> xs"

text \<open>
  \<open>get_state\<close>: \<open>repeat('', size)\<close> yields nothing for a negative size, and a negative
  \<open>maxlen\<close> is a \<open>ValueError\<close>.
\<close>

definition get_state :: "pyval list \<Rightarrow> int \<Rightarrow> error + pyval deque" where
  "get_state state sz =
     (if sz < 0 then Inl ValueError
      else Inr (deque_of (replicate (nat sz) (PStr []) @ state) (nat sz)))"

text \<open>
  Windows are objects: the heap maps a reference to the deque it denotes.
  \<open>follow_link\<close> changes the deque of the reference it is given and returns that reference.
\<close>

type_synonym ref = nat
type_synonym heap = "ref \<Rightarrow> pyval deque option"

definition follow_link ::
  "heap \<Rightarrow> pyval \<times> pyval \<Rightarrow> ref \<Rightarrow> bool \<Rightarrow> (heap \<times> ref) option" where
  "follow_link h link state backwards =
     (case h state of
        None \<Rightarrow> None
      | Some d \<Rightarrow>
          (let value = snd link
           in if backwards then Some (h(state \<mapsto> deque_appendleft d value), state)
              else Some (h(state \<mapsto> deque_append d value), state)))"

subsection \<open>Construction and equality\<close>

text \<open>Truth value testing, and \<open>get\<close> with a default, which only a \<open>dict\<close> has.\<close>

fun truthy :: "json \<Rightarrow> bool" where
  "truthy JNull = False"
| "truthy (JBool b) = b"
| "truthy (JInt n) = (n \<noteq> 0)"
| "truthy (JStr s) = (s \<noteq> [])"
| "truthy (JArr xs) = (xs \<noteq> [])"
| "truthy (JObj kvs) = (kvs \<noteq> [])"

fun py_get :: "json \<Rightarrow> string \<Rightarrow> json \<Rightarrow> error + json" where
  "py_get (JObj kvs) key dflt = Inr (case map_of kvs key of None \<Rightarrow> dflt | Some v \<Rightarrow> v)"
| "py_get j key dflt = Inl AttributeError"

text \<open>\<open>settings and settings.get('storage', {}).get('backward', False)\<close>, as a condition.\<close>

definition settings_backward :: "json \<Rightarrow> error + bool" where
  "settings_backward s =
     (if \<not> truthy s then Inr False
      else
        (case py_get s ''storage'' (JObj []) of
           Inl e \<Rightarrow> Inl e
         | Inr sto \<Rightarrow>
             (case py_get sto ''backward'' (JBool False) of
                Inl e \<Rightarrow> Inl e
              | Inr b \<Rightarrow> Inr (truthy b))))"

text \<open>The \<open>backward\<close> argument of the constructor: \<open>None\<close>, a \<open>bool\<close> or a dictionary.\<close>

datatype backward_arg = BNone | BBool bool | BData data

text \<open>
  The constructor. The separator is a parameter: it is set by the base class, which is
  not among the sources.
\<close>

definition JsonStorage :: "string \<Rightarrow> data option \<Rightarrow> backward_arg \<Rightarrow> json \<Rightarrow> error + storage" where
  "JsonStorage sep nodes_arg backward_arg settings_arg =
     (let nodes' = (case nodes_arg of None \<Rightarrow> [] | Some d \<Rightarrow> d)
      in case backward_arg of
           BNone \<Rightarrow>
             (case settings_backward settings_arg of
                Inl e \<Rightarrow> Inl e
              | Inr b \<Rightarrow>
                  Inr \<lparr>settings = settings_arg, state_separator = sep, nodes = nodes',
                       backward = (if b then Some [] else None)\<rparr>)
         | BBool b \<Rightarrow>
             Inr \<lparr>settings = settings_arg, state_separator = sep, nodes = nodes',
                  backward = (if b then Some [] else None)\<rparr>
         | BData d \<Rightarrow>
             Inr \<lparr>settings = settings_arg, state_separator = sep, nodes = nodes',
                  backward = Some d\<rparr>)"





text \<open>
  The store after a sequence of calls of \<open>add_links\<close>, each with its links and its prefix,
  whether or not a call raised.
\<close>

definition after_calls :: "storage \<Rightarrow> (link_item list \<times> string) list \<Rightarrow> storage" where
  "after_calls st calls = foldl (\<lambda>s c. fst (add_links s (fst c) (snd c))) st calls"

section \<open>The wire format\<close>

definition NONE_VALUE :: string where
  "NONE_VALUE = [CHR 0x00, CHR 0x00]"


definition hydrate_key :: "string \<Rightarrow> token" where
  "hydrate_key key = (if key = NONE_VALUE then None else Some key)"

subsection \<open>Saving\<close>









subsection \<open>Loading\<close>

text \<open>The first exception of a comprehension ends it.\<close>

fun collect :: "(error + 'a) list \<Rightarrow> error + 'a list" where
  "collect [] = Inr []"
| "collect (Inl e # rs) = Inl e"
| "collect (Inr x # rs) = (case collect rs of Inl e \<Rightarrow> Inl e | Inr xs \<Rightarrow> Inr (x # xs))"

text \<open>
  Iteration: a list yields its elements, a string its characters, a dictionary its keys.
  \<open>zip\<close> stops with its shortest argument.
\<close>

fun py_iter :: "json \<Rightarrow> error + json list" where
  "py_iter (JArr xs) = Inr xs"
| "py_iter (JStr s) = Inr (map (\<lambda>c. JStr [c]) s)"
| "py_iter (JObj kvs) = Inr (map (\<lambda>kv. JStr (fst kv)) kvs)"
| "py_iter j = Inl TypeError"

definition py_zip :: "'a list list \<Rightarrow> 'a list list" where
  "py_zip cols =
     (case cols of
        [] \<Rightarrow> []
      | c # cs \<Rightarrow> map (\<lambda>i. map (\<lambda>col. col ! i) cols)
                   [0..<foldr min (map length cs) (length c)])"

text \<open>\<open>isinstance(x, int)\<close>: \<open>bool\<close> is a subclass of \<open>int\<close>.\<close>

fun is_int :: "json \<Rightarrow> bool" where
  "is_int (JInt n) = True"
| "is_int (JBool b) = True"
| "is_int j = False"

text \<open>
  An entry \<open>hydrate_key(key): value\<close> of the new \<open>Counter\<close>. A key that is a list or a
  dictionary cannot be hashed; \<open>None == NONE_VALUE\<close> is false, so \<open>None\<close> stays \<open>None\<close>.
\<close>

fun hydrate_token :: "json \<Rightarrow> error + token" where
  "hydrate_token (JStr s) = Inr (hydrate_key s)"
| "hydrate_token JNull = Inr None"
| "hydrate_token (JArr xs) = Inl TypeError"
| "hydrate_token (JObj kvs) = Inl TypeError"
| "hydrate_token j = Inl OutOfModel"

fun count_of :: "json \<Rightarrow> error + int" where
  "count_of (JInt n) = Inr n"
| "count_of j = Inl OutOfModel"

definition counter_entry :: "json \<Rightarrow> json \<Rightarrow> error + (token \<times> int)" where
  "counter_entry key val =
     (case hydrate_token key of
        Inl e \<Rightarrow> Inl e
      | Inr t \<Rightarrow> (case count_of val of Inl e \<Rightarrow> Inl e | Inr n \<Rightarrow> Inr (t, n)))"

text \<open>\<open>for (value, key) in ...\<close>: each row is unpacked into two.\<close>

fun row_entry :: "json list \<Rightarrow> error + (token \<times> int)" where
  "row_entry [val, key] = counter_entry key val"
| "row_entry row = Inl ValueError"

definition counterify :: "json \<Rightarrow> error + counter" where
  "counterify node_list =
     (if \<not> truthy node_list then Inr []
      else
        (case node_list of
           JObj kvs \<Rightarrow>
             (case collect (map (\<lambda>(key, val). counter_entry (JStr key) val) kvs) of
                Inl e \<Rightarrow> Inl e
              | Inr es \<Rightarrow> Inr (dict_of_items es))
         | JArr xs \<Rightarrow>
             (if is_int (hd xs) then
                (case row_entry xs of Inl e \<Rightarrow> Inl e | Inr e1 \<Rightarrow> Inr (dict_of_items [e1]))
              else
                (case collect (map py_iter xs) of
                   Inl e \<Rightarrow> Inl e
                 | Inr cols \<Rightarrow>
                     (case collect (map row_entry (py_zip cols)) of
                        Inl e \<Rightarrow> Inl e
                      | Inr es \<Rightarrow> Inr (dict_of_items es))))
         | JStr s \<Rightarrow>
             (case collect (map row_entry (py_zip (map (\<lambda>c. [JStr [c]]) s))) of
                Inl e \<Rightarrow> Inl e
              | Inr es \<Rightarrow> Inr (dict_of_items es))
         | _ \<Rightarrow> Inl TypeError))"








section \<open>Readings of the data model\<close>

text \<open>\<open>d[name][key][tok]\<close> where all three are present: a recorded weight.\<close>

definition entry :: "data \<Rightarrow> string \<Rightarrow> token \<Rightarrow> token \<Rightarrow> int option" where
  "entry d name key tok =
     (case map_of d name of
        None \<Rightarrow> None
      | Some ds \<Rightarrow> (case map_of ds key of None \<Rightarrow> None | Some c \<Rightarrow> map_of c tok))"

text \<open>Every value of a dictionary satisfies \<open>P\<close>; a dictionary has one pair per key.\<close>

definition dict_all :: "('v \<Rightarrow> bool) \<Rightarrow> ('k \<times> 'v) list \<Rightarrow> bool" where
  "dict_all P d = list_all (\<lambda>kv. P (snd kv)) d"


text \<open>All counts are positive.\<close>

definition positive_data :: "data \<Rightarrow> bool" where
  "positive_data d = dict_all (dict_all (dict_all (\<lambda>n. 0 < n))) d"

definition positive_counts :: "storage \<Rightarrow> bool" where
  "positive_counts st =
     (positive_data (nodes st)
      \<and> (case backward st of None \<Rightarrow> True | Some b \<Rightarrow> positive_data b))"





text \<open>
  The context tokens and the target of a link do not contain the separator. A separator
  has a border when one of its proper non-empty prefixes is also its suffix.
\<close>

definition link_sep_free :: "string \<Rightarrow> link_item \<Rightarrow> bool" where
  "link_sep_free sep item =
     (case item of
        Link dataset src dst \<Rightarrow>
          list_all (\<lambda>t. \<not> str_in sep t) src
          \<and> (case dst of None \<Rightarrow> True | Some t \<Rightarrow> \<not> str_in sep t)
      | NotATriple n \<Rightarrow> True)"

definition bordered :: "string \<Rightarrow> bool" where
  "bordered sep = list_ex (\<lambda>n. take n sep = drop (length sep - n) sep) [1..<length sep]"

text \<open>
  What one round of \<open>add_links\<close> does to a map: \<open>get_dataset\<close> with \<open>create\<close> makes sure
  the dataset is there, and \<open>add_link\<close> then counts one link in it.
\<close>

definition created :: "string \<Rightarrow> data \<Rightarrow> data" where
  "created name d = (case map_of d name of None \<Rightarrow> dict_set name [] d | Some v \<Rightarrow> d)"

definition linked :: "string \<Rightarrow> token \<Rightarrow> token \<Rightarrow> data \<Rightarrow> data" where
  "linked name key tok d =
     dict_set name (add_link (case map_of d name of None \<Rightarrow> [] | Some v \<Rightarrow> v) key tok 1)
       (created name d)"

text \<open>
  The symmetry between a forward map and a backward map under a separator: a context
  \<open>ctx\<close> followed by \<open>t\<close> has in the forward map the weight that \<open>tl ctx @ [t]\<close> followed
  backwards by \<open>hd ctx\<close> has in the backward map, and every entry of either map with a
  token that is not \<open>None\<close> is of this form, with tokens free of the separator.
\<close>

definition sep_free :: "string \<Rightarrow> string list \<Rightarrow> bool" where
  "sep_free sep toks = list_all (\<lambda>t. \<not> str_in sep t) toks"

definition backward_symmetric :: "string \<Rightarrow> data \<Rightarrow> data \<Rightarrow> bool" where
  "backward_symmetric sep fw bw =
     ((\<forall>name ctx t. ctx \<noteq> [] \<and> sep_free sep (ctx @ [t]) \<longrightarrow>
         entry fw name (Some (str_join sep ctx)) (Some t)
           = entry bw name (Some (str_join sep (tl ctx @ [t]))) (Some (hd ctx)))
      \<and> (\<forall>name key t c. entry fw name key (Some t) = Some c \<longrightarrow>
            (\<exists>ctx. ctx \<noteq> [] \<and> sep_free sep (ctx @ [t]) \<and> key = Some (str_join sep ctx)))
      \<and> (\<forall>name key tok c. entry bw name key tok = Some c \<longrightarrow>
            (\<exists>f rest t. sep_free sep (f # rest @ [t])
                       \<and> key = Some (str_join sep (rest @ [t])) \<and> tok = Some f)))"

section \<open>The scenario of the specification\<close>

text \<open>
  Window size 2, separator U+0001, and the two links
  \<open>("body", ["", ""], "the")\<close> and \<open>("body", ["", "the"], "cat")\<close> added to a fresh store.
\<close>

definition scenario_fresh :: storage where
  "scenario_fresh =
     \<lparr>settings = JNull, state_separator = [CHR 0x01], nodes = [], backward = None\<rparr>"

definition scenario_links :: "link_item list" where
  "scenario_links =
     [Link ''body'' ['''', ''''] (Some ''the''), Link ''body'' ['''', ''the''] (Some ''cat'')]"

definition scenario_body :: dataset where
  "scenario_body =
     [(Some [CHR 0x01], [(Some ''the'', 1)]),
      (Some ([CHR 0x01] @ ''the''), [(Some ''cat'', 1)])]"

definition scenario_store :: storage where
  "scenario_store =
     \<lparr>settings = JNull, state_separator = [CHR 0x01], nodes = [(''body'', scenario_body)],
      backward = None\<rparr>"

section \<open>Properties of the queries\<close>

text \<open>
  C5. On a store constructed without backward support (\<open>backward\<close> is \<open>None\<close>), a backward
  query fails with \<open>ValueError\<close> ("no backward nodes", the specification's
  UnsupportedOperation) for every dataset argument and every state: the test comes first,
  and the result does not depend on the dataset.
\<close>

theorem get_links_backward_unsupported:
  "backward st = None \<Longrightarrow> get_links st dataset state True = Inl ValueError"
  by (simp add: get_links_def)

theorem get_links_backward_unsupported_witness:
  "backward \<lparr>settings = JNull, state_separator = [CHR 0x01],
             nodes = [(''body'', [(Some [CHR 0x01], [(Some ''the'', 1)])])],
             backward = None\<rparr> = None
   \<and> get_links \<lparr>settings = JNull, state_separator = [CHR 0x01],
                 nodes = [(''body'', [(Some [CHR 0x01], [(Some ''the'', 1)])])],
                 backward = None\<rparr>
         ([(Some [CHR 0x01], [(Some ''the'', 1)])], None) [PStr [], PStr []] True
       = Inl ValueError"
  using get_links_backward_unsupported
    [of "\<lparr>settings = JNull, state_separator = [CHR 0x01],
           nodes = [(''body'', [(Some [CHR 0x01], [(Some ''the'', 1)])])],
           backward = None\<rparr>"
        "([(Some [CHR 0x01], [(Some ''the'', 1)])], None)" "[PStr [], PStr []]"]
  by simp

text \<open>
  C6. When the query is supported, the state is a sequence of strings and its encoded key
  has no entry in the selected map (the forward dataset, or the backward dataset for a
  backward query), \<open>get_links\<close> returns the empty list and raises nothing.
\<close>

theorem get_links_unknown_state:
  assumes "\<not> (backwards \<and> backward st = None)"
    and "str_items state = Inr toks"
    and "subscript dataset backwards = Some d"
    and "map_of d (Some (join_state st toks)) = None"
  shows "get_links st dataset state backwards = Inr []"
  using assms by (simp add: get_links_def)

theorem get_links_unknown_state_witness:
  "get_links \<lparr>settings = JNull, state_separator = [CHR 0x01],
               nodes = [(''body'', [(Some [CHR 0x01], [(Some ''the'', 1)])])],
               backward = None\<rparr>
     ([(Some [CHR 0x01], [(Some ''the'', 1)])], None) [PStr ''the'', PStr ''dog''] False
   = Inr []"
  using get_links_unknown_state
    [of False
        "\<lparr>settings = JNull, state_separator = [CHR 0x01],
           nodes = [(''body'', [(Some [CHR 0x01], [(Some ''the'', 1)])])],
           backward = None\<rparr>"
        "[PStr ''the'', PStr ''dog'']" "[''the'', ''dog'']"
        "([(Some [CHR 0x01], [(Some ''the'', 1)])], None)"
        "[(Some [CHR 0x01], [(Some ''the'', 1)])]"]
  by (simp add: subscript_def join_state_def)

text \<open>
  C10. On a store with a backward map, \<open>get_states\<close> raises \<open>KeyError\<close> (NotFound) for a
  dataset name that the backward map does not have, whether or not the forward map has
  it: \<open>get_dataset\<close> looks the name up in both maps.
\<close>

theorem get_states_backward_missing:
  "backward st = Some bw \<Longrightarrow> map_of bw name = None \<Longrightarrow> get_states st name string = Inl KeyError"
  by (simp add: get_states_def get_dataset_def do_get_dataset_def split: option.splits)

theorem get_states_backward_missing_witness:
  "map_of (nodes \<lparr>settings = JNull, state_separator = '' '',
                   nodes = [(''title'', [(Some ''a b'', [(Some ''c'', 1)])])],
                   backward = Some []\<rparr>) ''title''
     = Some [(Some ''a b'', [(Some ''c'', 1)])]
   \<and> get_states \<lparr>settings = JNull, state_separator = '' '',
                  nodes = [(''title'', [(Some ''a b'', [(Some ''c'', 1)])])],
                  backward = Some []\<rparr> ''title'' ''a'' = Inl KeyError"
  using get_states_backward_missing
    [of "\<lparr>settings = JNull, state_separator = '' '',
           nodes = [(''title'', [(Some ''a b'', [(Some ''c'', 1)])])],
           backward = Some []\<rparr>" "[]" "''title''" "''a''"]
  by simp

section \<open>Context windows\<close>

lemma deque_of_maxlen: "maxlen (foldl deque_append d xs) = maxlen d"
  by (induction xs arbitrary: d) (simp_all add: deque_append_def Let_def)

lemma deque_of_length:
  "length (items d) \<le> maxlen d \<Longrightarrow>
   length (items (foldl deque_append d xs)) = min (maxlen d) (length (items d) + length xs)"
proof (induction xs arbitrary: d)
  case Nil
  then show ?case by simp
next
  case (Cons x xs)
  have "length (items (deque_append d x)) \<le> maxlen (deque_append d x)"
    using Cons.prems by (simp add: deque_append_def Let_def)
  from Cons.IH[OF this] show ?case
    using Cons.prems by (auto simp: deque_append_def Let_def)
qed

lemma get_state_shape:
  assumes "get_state state n = Inr w"
  shows "maxlen w = nat n \<and> length (items w) = nat n"
  using assms
  by (auto simp: get_state_def deque_of_def deque_of_maxlen deque_of_length split: if_splits)

text \<open>
  C8. Let \<open>w\<close> be a window of size \<open>n\<close> made by \<open>get_state\<close> and held at reference \<open>r\<close>.
  \<open>follow_link\<close> returns \<open>r\<close> itself and changes the heap at \<open>r\<close> only: the window has
  the link's token appended on the right and its leftmost element dropped for a forward
  step, the token prepended on the left and its rightmost element dropped for a backward
  step; its length is \<open>n\<close> before and after.
\<close>

theorem follow_link_window:
  assumes "get_state state n = Inr w" and "h r = Some w"
  shows "follow_link h link r backwards =
           Some (h(r \<mapsto> w\<lparr>items := (if backwards then butlast (snd link # items w)
                                      else tl (items w @ [snd link]))\<rparr>), r)
         \<and> length (if backwards then butlast (snd link # items w) else tl (items w @ [snd link])) = nat n
         \<and> length (items w) = nat n"
proof -
  have shape: "maxlen w = nat n" "length (items w) = nat n"
    using get_state_shape[OF assms(1)] by simp_all
  show ?thesis
  proof (cases "items w")
    case Nil
    with shape assms(2) show ?thesis
      by (simp add: follow_link_def deque_append_def deque_appendleft_def Let_def)
  next
    case (Cons x xs)
    with shape assms(2) show ?thesis
      by (auto simp: follow_link_def deque_append_def deque_appendleft_def Let_def)
  qed
qed

theorem follow_link_window_witness:
  "get_state [PStr ''the''] 2 = Inr \<lparr>items = [PStr [], PStr ''the''], maxlen = 2\<rparr>
   \<and> follow_link (Map.empty(0 \<mapsto> \<lparr>items = [PStr [], PStr ''the''], maxlen = 2\<rparr>))
         (PInt 1, PStr ''cat'') 0 False
       = Some (Map.empty(0 \<mapsto> \<lparr>items = [PStr ''the'', PStr ''cat''], maxlen = 2\<rparr>), 0)"
proof -
  have g: "get_state [PStr ''the''] 2 = Inr \<lparr>items = [PStr [], PStr ''the''], maxlen = 2\<rparr>"
    by (simp add: get_state_def deque_of_def deque_append_def numeral_2_eq_2)
  have h: "(Map.empty(0 \<mapsto> \<lparr>items = [PStr [], PStr ''the''], maxlen = 2\<rparr>)) (0::nat)
             = Some \<lparr>items = [PStr [], PStr ''the''], maxlen = 2\<rparr>"
    by simp
  show ?thesis
    using g h follow_link_window[of "[PStr ''the'']" 2 "\<lparr>items = [PStr [], PStr ''the''], maxlen = 2\<rparr>"
        "Map.empty(0 \<mapsto> \<lparr>items = [PStr [], PStr ''the''], maxlen = 2\<rparr>)" 0
        "(PInt 1, PStr ''cat'')" False]
    by simp
qed

section \<open>Ingestion\<close>

lemmas ingest_defs = add_links_step_def get_dataset_def do_get_dataset_def add_link_def
  counter_add_def join_state_def Let_def

lemma add_links_append:
  "add_links st earlier p = (st', None) \<Longrightarrow>
   add_links st (earlier @ later) p = add_links st' later p"
proof (induction earlier arbitrary: st)
  case Nil
  then show ?case by simp
next
  case (Cons a earlier)
  then show ?case by (auto split: prod.splits option.splits)
qed

text \<open>
  C4. If the triples before it are ingested without an exception, leaving the store
  \<open>st'\<close>, an item that does not unpack into three components makes \<open>add_links\<close> raise
  \<open>ValueError\<close> (StructuralError) with the store exactly \<open>st'\<close>: nothing is written for
  the item, in either map, and what the earlier triples wrote is kept. The items after it
  are not reached.
\<close>

theorem add_links_malformed:
  assumes "n \<noteq> 3" and "add_links st earlier p = (st', None)"
  shows "add_links st (earlier @ NotATriple n # later) p = (st', Some ValueError)"
  using assms by (simp add: add_links_append add_links_step_def)

theorem add_links_malformed_witness:
  "add_links \<lparr>settings = JNull, state_separator = [CHR 0x01], nodes = [], backward = None\<rparr>
     ([Link ''body'' ['''', ''''] (Some ''the'')] @ NotATriple 2 # [Link ''body'' ['''', ''the''] (Some ''cat'')]) []
   = (\<lparr>settings = JNull, state_separator = [CHR 0x01],
       nodes = [(''body'', [(Some [CHR 0x01], [(Some ''the'', 1)])])], backward = None\<rparr>,
      Some ValueError)"
proof -
  have e: "add_links \<lparr>settings = JNull, state_separator = [CHR 0x01], nodes = [], backward = None\<rparr>
             [Link ''body'' ['''', ''''] (Some ''the'')] []
           = (\<lparr>settings = JNull, state_separator = [CHR 0x01],
                nodes = [(''body'', [(Some [CHR 0x01], [(Some ''the'', 1)])])], backward = None\<rparr>, None)"
    by (simp add: ingest_defs)
  have n: "(2::nat) \<noteq> 3" by simp
  show ?thesis
    using add_links_malformed[OF n e, of "[Link ''body'' ['''', ''the''] (Some ''cat'')]"] by simp
qed

section \<open>Dictionaries and the positivity of counts\<close>

lemma map_of_dict_set: "map_of (dict_set k v d) = (map_of d)(k \<mapsto> v)"
  by (induction d) (auto simp: fun_eq_iff)

lemma set_dict_set: "set (dict_set k v d) \<subseteq> insert (k, v) (set d)"
  by (induction d) auto

lemma dict_all_iff: "dict_all P d \<longleftrightarrow> (\<forall>kv\<in>set d. P (snd kv))"
  by (simp add: dict_all_def list_all_iff)

lemma dict_all_dict_set: "dict_all P d \<Longrightarrow> P v \<Longrightarrow> dict_all P (dict_set k v d)"
  using set_dict_set[of k v d] by (auto simp: dict_all_iff)

lemma dict_all_map_of: "dict_all P d \<Longrightarrow> map_of d k = Some v \<Longrightarrow> P v"
  by (force simp: dict_all_iff dest!: map_of_SomeD)

lemma positive_counter_add:
  "dict_all (\<lambda>n. 0 < n) c \<Longrightarrow> dict_all (\<lambda>n. 0 < n) (counter_add c t 1)"
  unfolding counter_add_def
  by (rule dict_all_dict_set) (auto split: option.splits dest: dict_all_map_of)

lemma positive_add_link:
  assumes "dict_all (dict_all (\<lambda>n. 0 < n)) ds"
  shows "dict_all (dict_all (\<lambda>n. 0 < n)) (add_link ds source target 1)"
proof -
  let ?P = "dict_all (\<lambda>n::int. 0 < n)"
  have e: "?P []" by (simp add: dict_all_def)
  let ?d1 = "if map_of ds source = None then dict_set source [] ds else ds"
  have d1: "dict_all ?P ?d1" using assms e by (auto intro: dict_all_dict_set)
  have "?P (case map_of ?d1 source of None \<Rightarrow> [] | Some c \<Rightarrow> c)"
    using d1 e by (auto split: option.splits dest: dict_all_map_of)
  then have "?P (counter_add (case map_of ?d1 source of None \<Rightarrow> [] | Some c \<Rightarrow> c) target 1)"
    by (rule positive_counter_add)
  with d1 show ?thesis unfolding add_link_def Let_def by (rule dict_all_dict_set)
qed

lemma positive_data_set:
  "positive_data d \<Longrightarrow> dict_all (dict_all (\<lambda>n. 0 < n)) ds \<Longrightarrow> positive_data (dict_set name ds d)"
  unfolding positive_data_def by (rule dict_all_dict_set)

lemma positive_data_get:
  "positive_data d \<Longrightarrow> map_of d name = Some ds \<Longrightarrow> dict_all (dict_all (\<lambda>n. 0 < n)) ds"
  unfolding positive_data_def by (rule dict_all_map_of)

lemma positive_data_empty: "dict_all (dict_all (\<lambda>n::int. 0 < n)) []"
  by (simp add: dict_all_def)

lemma get_dataset_create:
  "get_dataset st name True =
     Inr (st\<lparr>nodes := (case map_of (nodes st) name of None \<Rightarrow> dict_set name [] (nodes st) | Some v \<Rightarrow> nodes st),
             backward := (case backward st of None \<Rightarrow> None
                          | Some b \<Rightarrow> Some (case map_of b name of None \<Rightarrow> dict_set name [] b | Some v \<Rightarrow> b))\<rparr>,
          (case map_of (nodes st) name of None \<Rightarrow> [] | Some v \<Rightarrow> v),
          (case backward st of None \<Rightarrow> None
           | Some b \<Rightarrow> Some (case map_of b name of None \<Rightarrow> [] | Some v \<Rightarrow> v)))"
  by (simp add: get_dataset_def do_get_dataset_def split: option.splits)

lemma positive_step:
  assumes "positive_counts st"
  shows "positive_counts (fst (add_links_step st p item))"
proof (cases item)
  case (NotATriple n)
  with assms show ?thesis by (simp add: add_links_step_def)
next
  case (Link dataset src dst)
  let ?name = "p @ dataset"
  let ?n1 = "case map_of (nodes st) ?name of None \<Rightarrow> dict_set ?name [] (nodes st) | Some v \<Rightarrow> nodes st"
  let ?f = "case map_of (nodes st) ?name of None \<Rightarrow> [] | Some v \<Rightarrow> v"
  have pn: "positive_data (nodes st)" using assms by (simp add: positive_counts_def)
  have n1: "positive_data ?n1"
    using pn positive_data_empty by (auto split: option.splits intro: positive_data_set)
  have f: "dict_all (dict_all (\<lambda>n. 0 < n)) ?f"
    using pn positive_data_empty by (auto split: option.splits dest: positive_data_get)
  have fw: "\<And>k t. positive_data (dict_set ?name (add_link ?f k t 1) ?n1)"
    using n1 f by (intro positive_data_set positive_add_link)
  show ?thesis
  proof (cases "backward st")
    case None
    with Link fw show ?thesis
      by (simp add: add_links_step_def get_dataset_create positive_counts_def split: option.splits)
  next
    case (Some b)
    let ?b1 = "case map_of b ?name of None \<Rightarrow> dict_set ?name [] b | Some v \<Rightarrow> b"
    let ?bw = "case map_of b ?name of None \<Rightarrow> [] | Some v \<Rightarrow> v"
    have pb: "positive_data b" using assms Some by (simp add: positive_counts_def)
    have b1: "positive_data ?b1"
      using pb positive_data_empty by (auto split: option.splits intro: positive_data_set)
    have bw: "dict_all (dict_all (\<lambda>n. 0 < n)) ?bw"
      using pb positive_data_empty by (auto split: option.splits dest: positive_data_get)
    have bk: "\<And>k t. positive_data (dict_set ?name (add_link ?bw k t 1) ?b1)"
      using b1 bw by (intro positive_data_set positive_add_link)
    from Link Some fw bk n1 b1 show ?thesis
      by (simp add: add_links_step_def get_dataset_create positive_counts_def Let_def
          split: option.splits list.splits)
  qed
qed

lemma positive_add_links:
  "positive_counts st \<Longrightarrow> positive_counts (fst (add_links st links p))"
proof (induction links arbitrary: st)
  case Nil
  then show ?case by simp
next
  case (Cons item links)
  from positive_step[OF Cons.prems, of p item] Cons.IH
  show ?case by (auto split: prod.splits option.splits)
qed

lemma positive_after_calls:
  "positive_counts st \<Longrightarrow> positive_counts (after_calls st calls)"
  unfolding after_calls_def
  by (induction calls arbitrary: st) (simp_all add: positive_add_links)

section \<open>Successors\<close>

lemmas scenario_defs = scenario_fresh_def scenario_links_def scenario_body_def scenario_store_def

lemma scenario_built: "add_links scenario_fresh scenario_links [] = (scenario_store, None)"
  by (simp add: scenario_defs ingest_defs)

lemma scenario_constructed: "JsonStorage [CHR 0x01] None BNone JNull = Inr scenario_fresh"
  by (simp add: JsonStorage_def settings_backward_def scenario_fresh_def)

lemma scenario_dataset:
  "get_dataset scenario_store ''body'' False = Inr (scenario_store, scenario_body, None)"
  by (simp add: scenario_store_def get_dataset_def do_get_dataset_def)

lemma window_empty: "get_state [] 2 = Inr \<lparr>items = [PStr [], PStr []], maxlen = 2\<rparr>"
  by (simp add: get_state_def deque_of_def deque_append_def numeral_2_eq_2)

lemma window_the: "get_state [PStr ''the''] 2 = Inr \<lparr>items = [PStr [], PStr ''the''], maxlen = 2\<rparr>"
  by (simp add: get_state_def deque_of_def deque_append_def numeral_2_eq_2)

lemma scenario_successors_empty:
  "get_links scenario_store (scenario_body, None) [PStr [], PStr []] False = Inr [(PInt 1, PStr ''the'')]"
  by (simp add: get_links_def subscript_def join_state_def scenario_store_def scenario_body_def)

lemma scenario_successors_the:
  "get_links scenario_store (scenario_body, None) [PStr [], PStr ''the''] False = Inr [(PInt 1, PStr ''cat'')]"
  by (simp add: get_links_def subscript_def join_state_def scenario_store_def scenario_body_def)

lemma get_links_value:
  assumes "\<not> (backwards \<and> backward st = None)" and "str_items state = Inr toks"
    and "subscript dataset backwards = Some d"
  shows "get_links st dataset state backwards =
           Inr (case map_of d (Some (join_state st toks)) of
                  None \<Rightarrow> []
                | Some node \<Rightarrow> map (\<lambda>(w, num). (PInt num, tok_val w)) node)"
  using assms by (simp add: get_links_def split: option.splits)

lemma get_dataset_lookup:
  assumes "get_dataset st name False = Inr (st', f, bw)"
  shows "map_of (nodes st) name = Some f
         \<and> (case backward st of None \<Rightarrow> bw = None | Some b \<Rightarrow> bw \<noteq> None \<and> map_of b name = bw)"
proof (cases "map_of (nodes st) name")
  case None
  with assms show ?thesis by (simp add: get_dataset_def do_get_dataset_def)
next
  case f: (Some f0)
  show ?thesis
  proof (cases "backward st")
    case None
    with assms f show ?thesis by (simp add: get_dataset_def do_get_dataset_def)
  next
    case b: (Some b)
    show ?thesis
    proof (cases "map_of b name")
      case None
      with assms f b show ?thesis by (simp add: get_dataset_def do_get_dataset_def)
    next
      case (Some d)
      with assms f b show ?thesis by (simp add: get_dataset_def do_get_dataset_def, metis)
    qed
  qed
qed

lemma get_links_positive:
  assumes pos: "positive_counts st"
    and ds: "get_dataset st name False = Inr (st', dataset)"
    and r: "get_links st dataset state backwards = Inr r"
  shows "\<forall>p\<in>set r. \<exists>n w. p = (PInt n, tok_val w) \<and> 0 < n"
proof -
  obtain f bw where dataset: "dataset = (f, bw)" by (cases dataset)
  note look = get_dataset_lookup[OF ds[unfolded dataset]]
  have sup: "\<not> (backwards \<and> backward st = None)"
    using r by (auto simp: get_links_def split: if_splits)
  obtain toks where toks: "str_items state = Inr toks"
    using r sup by (auto simp: get_links_def split: sum.splits if_splits)
  obtain d where d: "subscript dataset backwards = Some d"
    using r sup toks by (auto simp: get_links_def split: option.splits if_splits)
  have pd: "dict_all (dict_all (\<lambda>n. 0 < n)) d"
  proof (cases backwards)
    case False
    with d dataset have "d = f" by (simp add: subscript_def)
    with look pos show ?thesis
      by (auto simp: positive_counts_def dest: positive_data_get)
  next
    case True
    with d dataset have bw: "bw = Some d" by (simp add: subscript_def)
    with look sup True obtain b where "backward st = Some b" "map_of b name = Some d"
      by (auto split: option.splits)
    with pos show ?thesis
      by (auto simp: positive_counts_def dest: positive_data_get)
  qed
  have rv: "r = (case map_of d (Some (join_state st toks)) of
                  None \<Rightarrow> []
                | Some node \<Rightarrow> map (\<lambda>(w, num). (PInt num, tok_val w)) node)"
    using get_links_value[OF sup toks d] r by simp
  show ?thesis
  proof (cases "map_of d (Some (join_state st toks))")
    case None
    with rv show ?thesis by simp
  next
    case (Some node)
    with pd have "dict_all (\<lambda>n. 0 < n) node" by (rule dict_all_map_of)
    with rv Some show ?thesis by (force simp: dict_all_iff)
  qed
qed

lemma fresh_positive:
  "nodes st0 = [] \<Longrightarrow> backward st0 = None \<or> backward st0 = Some [] \<Longrightarrow> positive_counts st0"
  by (auto simp: positive_counts_def positive_data_def dict_all_def)

text \<open>
  C1, as amended. \<open>get_links\<close> returns the recorded continuations of the state as a
  list of pairs with the weight first and the token second (the claim has them the other
  way round; \<open>follow_link\<close> takes the token from position 1). For a supported query on a
  sequence of strings with the selected map present, the list is the node's items in
  insertion order, each turned round, or the empty list for an unknown state. In a store
  built from an empty one by calls of \<open>add_links\<close> every returned weight is positive.
  In the scenario, the window of no prior tokens yields \<open>[(1, "the")]\<close> and the window
  of \<open>["the"]\<close> yields \<open>[(1, "cat")]\<close>.
\<close>

theorem get_links_pairs:
  "(\<not> (backwards \<and> backward st = None) \<longrightarrow> str_items state = Inr toks \<longrightarrow>
      subscript dataset backwards = Some d \<longrightarrow>
      get_links st dataset state backwards =
        Inr (case map_of d (Some (join_state st toks)) of
               None \<Rightarrow> []
             | Some node \<Rightarrow> map (\<lambda>(w, num). (PInt num, tok_val w)) node))
   \<and> (nodes st0 = [] \<longrightarrow> (backward st0 = None \<or> backward st0 = Some []) \<longrightarrow>
        get_dataset (after_calls st0 calls) name False = Inr (st', ds) \<longrightarrow>
        get_links (after_calls st0 calls) ds state' backwards' = Inr r \<longrightarrow>
        (\<forall>p\<in>set r. \<exists>n w. p = (PInt n, tok_val w) \<and> 0 < n))
   \<and> JsonStorage [CHR 0x01] None BNone JNull = Inr scenario_fresh
   \<and> add_links scenario_fresh scenario_links [] = (scenario_store, None)
   \<and> get_dataset scenario_store ''body'' False = Inr (scenario_store, scenario_body, None)
   \<and> get_state [] 2 = Inr \<lparr>items = [PStr [], PStr []], maxlen = 2\<rparr>
   \<and> get_links scenario_store (scenario_body, None) [PStr [], PStr []] False
       = Inr [(PInt 1, PStr ''the'')]
   \<and> get_state [PStr ''the''] 2 = Inr \<lparr>items = [PStr [], PStr ''the''], maxlen = 2\<rparr>
   \<and> get_links scenario_store (scenario_body, None) [PStr [], PStr ''the''] False
       = Inr [(PInt 1, PStr ''cat'')]"
  using get_links_value[of backwards st state toks dataset d]
    get_links_positive[OF positive_after_calls[OF fresh_positive], of st0 calls name st' ds state' backwards' r]
    scenario_constructed scenario_built scenario_dataset window_empty window_the
    scenario_successors_empty scenario_successors_the
  by blast

theorem get_links_pairs_witness:
  "after_calls scenario_fresh [(scenario_links, [])] = scenario_store
   \<and> get_links scenario_store (scenario_body, None) [PStr ''the'', PStr ''cat''] False = Inr []
   \<and> (\<exists>n w. (PInt 1, PStr ''cat'') = (PInt n, tok_val w) \<and> 0 < n)"
proof -
  have a: "after_calls scenario_fresh [(scenario_links, [])] = scenario_store"
    by (simp add: after_calls_def scenario_built)
  have n: "nodes scenario_fresh = []" "backward scenario_fresh = None"
    by (simp_all add: scenario_fresh_def)
  have s: "\<not> (False \<and> backward scenario_store = None)" by simp
  have t: "str_items [PStr ''the'', PStr ''cat''] = Inr [''the'', ''cat'']" by simp
  have u: "subscript (scenario_body, None) False = Some scenario_body" by (simp add: subscript_def)
  have m: "map_of scenario_body (Some (join_state scenario_store [''the'', ''cat''])) = None"
    by (simp add: scenario_body_def scenario_store_def join_state_def)
  from get_links_pairs[of False scenario_store "[PStr ''the'', PStr ''cat'']" "[''the'', ''cat'']"
      "(scenario_body, None)" scenario_body scenario_fresh "[(scenario_links, [])]" "''body''"
      scenario_store "(scenario_body, None)" "[PStr [], PStr ''the'']" False "[(PInt 1, PStr ''cat'')]"]
  show ?thesis
    using a n s t u m scenario_dataset scenario_successors_the by simp
qed

text \<open>
  The claim as stated fails in its own scenario: the result is not \<open>[("the", 1)]\<close>.
\<close>

theorem get_links_pairs_counterexample:
  "add_links scenario_fresh scenario_links [] = (scenario_store, None)
   \<and> get_dataset scenario_store ''body'' False = Inr (scenario_store, scenario_body, None)
   \<and> get_state [] 2 = Inr \<lparr>items = [PStr [], PStr []], maxlen = 2\<rparr>
   \<and> get_links scenario_store (scenario_body, None) [PStr [], PStr []] False
       \<noteq> Inr [(PStr ''the'', PInt 1)]"
  using scenario_built scenario_dataset window_empty scenario_successors_empty by simp

section \<open>Searching states\<close>

lemma starts_with_iff: "starts_with sub s \<longleftrightarrow> (\<exists>q. s = sub @ q)"
  by (induction sub arbitrary: s) (auto split: list.splits)

lemma str_in_iff: "str_in sub s \<longleftrightarrow> (\<exists>p q. s = p @ sub @ q)"
proof (induction s)
  case Nil
  then show ?case by auto
next
  case (Cons c cs)
  show ?case
  proof
    assume "str_in sub (c # cs)"
    then consider "starts_with sub (c # cs)" | "str_in sub cs" by auto
    then show "\<exists>p q. c # cs = p @ sub @ q"
    proof cases
      case 1
      then obtain q where "c # cs = sub @ q" by (auto simp: starts_with_iff)
      then have "c # cs = [] @ sub @ q" by simp
      then show ?thesis by blast
    next
      case 2
      with Cons.IH obtain p q where "cs = p @ sub @ q" by auto
      then have "c # cs = (c # p) @ sub @ q" by simp
      then show ?thesis by blast
    qed
  next
    assume "\<exists>p q. c # cs = p @ sub @ q"
    then obtain p q where pq: "c # cs = p @ sub @ q" by auto
    show "str_in sub (c # cs)"
    proof (cases p)
      case Nil
      with pq have "starts_with sub (c # cs)" by (auto simp: starts_with_iff)
      then show ?thesis by simp
    next
      case (Cons a p')
      with pq have "cs = p' @ sub @ q" by simp
      with Cons.IH have "str_in sub cs" by blast
      then show ?thesis by simp
    qed
  qed
qed

lemma matching_keys_strings:
  "None \<notin> set keys \<Longrightarrow>
   matching_keys s keys =
     Inr (filter (\<lambda>k. case k of None \<Rightarrow> False | Some key \<Rightarrow> str_in s (lower key)) keys)"
proof (induction keys)
  case Nil
  then show ?case by simp
next
  case (Cons k keys)
  then show ?case by (cases k) auto
qed

lemma matching_keys_no_KeyError: "matching_keys s keys \<noteq> Inl KeyError"
proof (induction keys)
  case Nil
  then show ?case by simp
next
  case (Cons k keys)
  then show ?case by (cases k) (auto split: sum.splits)
qed

lemma get_states_resolved:
  assumes "map_of (nodes st) name = Some forward"
    and "\<forall>bw. backward st = Some bw \<longrightarrow> map_of bw name \<noteq> None"
  shows "get_states st name string = matching_keys (lower string) (map fst forward)"
  using assms
  by (auto simp: get_states_def get_dataset_def do_get_dataset_def split: option.splits)

lemma get_states_KeyError:
  "get_states st name string = Inl KeyError \<longleftrightarrow>
     (map_of (nodes st) name = None
      \<or> (\<exists>bw. backward st = Some bw \<and> map_of bw name = None))"
proof (cases "map_of (nodes st) name")
  case None
  then show ?thesis by (simp add: get_states_def get_dataset_def do_get_dataset_def)
next
  case (Some forward)
  show ?thesis
  proof (cases "\<forall>bw. backward st = Some bw \<longrightarrow> map_of bw name \<noteq> None")
    case True
    from get_states_resolved[OF Some True] matching_keys_no_KeyError Some True
    show ?thesis by auto
  next
    case False
    then obtain bw where "backward st = Some bw" "map_of bw name = None" by auto
    with Some show ?thesis
      by (auto simp: get_states_def get_dataset_def do_get_dataset_def)
  qed
qed

lemma scenario_states:
  "get_states scenario_store ''body'' ''th'' = Inr [Some (join_state scenario_store ['''', ''the''])]"
  by (simp add: get_states_def get_dataset_def do_get_dataset_def scenario_store_def
      scenario_body_def join_state_def lower_def lower_char_def capitals_def smalls_def)

lemma lower_char_capital:
  "c \<in> set capitals \<Longrightarrow> (of_char (lower_char c) :: nat) = of_char c + 32"
  by (auto simp: lower_char_def capitals_def smalls_def)

lemma lower_char_other: "c \<notin> set capitals \<Longrightarrow> lower_char c = c"
proof -
  assume "c \<notin> set capitals"
  moreover have "length capitals = length smalls" by (simp add: capitals_def smalls_def)
  ultimately have "map_of (zip capitals smalls) c = None"
    by (simp add: map_of_zip_is_None)
  then show ?thesis by (simp add: lower_char_def)
qed

text \<open>
  C7, as amended. When the dataset name is in the forward map, and also in the backward
  map if the store has one, and every key of the forward dataset is a string,
  \<open>get_states\<close> returns exactly the keys whose lower-cased text contains the lower-cased
  search string, in the order of the forward dataset (so the empty list when none does);
  two search strings with the same lower-cased text give the same result on every store.
  It raises \<open>KeyError\<close> (NotFound) if and only if the name is missing from the forward
  map or from the backward map of a store that has one. In the scenario the search for
  \<open>"th"\<close> returns the one key that encodes \<open>["", "the"]\<close>.
\<close>

theorem get_states_keys:
  "(map_of (nodes st) name = Some forward \<longrightarrow>
      (\<forall>bw. backward st = Some bw \<longrightarrow> map_of bw name \<noteq> None) \<longrightarrow>
      None \<notin> set (map fst forward) \<longrightarrow>
      get_states st name string =
        Inr (filter (\<lambda>k. case k of None \<Rightarrow> False
                         | Some key \<Rightarrow> \<exists>p q. lower key = p @ lower string @ q)
               (map fst forward)))
   \<and> (lower string' = lower string \<longrightarrow> get_states st name string' = get_states st name string)
   \<and> (get_states st name string = Inl KeyError \<longleftrightarrow>
        (map_of (nodes st) name = None
         \<or> (\<exists>bw. backward st = Some bw \<and> map_of bw name = None)))
   \<and> add_links scenario_fresh scenario_links [] = (scenario_store, None)
   \<and> get_states scenario_store ''body'' ''th''
       = Inr [Some (join_state scenario_store ['''', ''the''])]"
proof -
  have "get_states st name string =
        Inr (filter (\<lambda>k. case k of None \<Rightarrow> False
                         | Some key \<Rightarrow> \<exists>p q. lower key = p @ lower string @ q)
               (map fst forward))"
    if a: "map_of (nodes st) name = Some forward"
      and b: "\<forall>bw. backward st = Some bw \<longrightarrow> map_of bw name \<noteq> None"
      and c: "None \<notin> set (map fst forward)"
    using get_states_resolved[OF a b] matching_keys_strings[OF c]
    by (simp add: str_in_iff cong: option.case_cong)
  moreover have "get_states st name string' = get_states st name string"
    if "lower string' = lower string"
    by (simp only: get_states_def that)
  ultimately show ?thesis
    using get_states_KeyError[of st name string] scenario_built scenario_states by blast
qed

theorem get_states_keys_witness:
  "get_states \<lparr>settings = JNull, state_separator = '' '',
                nodes = [(''title'', [(Some ''The Cat'', [(Some ''sat'', 2)]),
                                      (Some ''a dog'', [(None, 1)]),
                                      (Some ''on the'', [(Some ''mat'', 1)])])],
                backward = Some [(''title'', [])]\<rparr> ''title'' ''THE''
   = Inr [Some ''The Cat'', Some ''on the'']
   \<and> get_states \<lparr>settings = JNull, state_separator = '' '',
                  nodes = [(''title'', [(Some ([CHR 0xC9] @ ''t'' @ [CHR 0xC9]), [(Some ''x'', 1)]),
                                        (Some ''ete'', [(Some ''y'', 1)])])],
                  backward = None\<rparr> ''title'' [CHR 0xE9, CHR ''T'']
     = Inr [Some ([CHR 0xC9] @ ''t'' @ [CHR 0xC9])]"
proof -
  let ?ds = "[(Some ''The Cat'', [(Some ''sat'', 2)]), (Some ''a dog'', [(None, 1)]),
              (Some ''on the'', [(Some ''mat'', 1::int)])]"
  let ?a = "\<lparr>settings = JNull, state_separator = '' '', nodes = [(''title'', ?ds)],
              backward = Some [(''title'', [])]\<rparr>"
  have a: "map_of (nodes ?a) ''title'' = Some ?ds" by simp
  have b: "\<forall>bw. backward ?a = Some bw \<longrightarrow> map_of bw ''title'' \<noteq> None" by simp
  have c: "None \<notin> set (map fst ?ds)" by simp
  have "get_states ?a ''title'' ''THE'' =
        Inr (filter (\<lambda>k. case k of None \<Rightarrow> False
                         | Some key \<Rightarrow> \<exists>p q. lower key = p @ lower ''THE'' @ q)
               (map fst ?ds))"
    using get_states_keys[of ?a "''title''" ?ds "''THE''"] a b c by blast
  also have "\<dots> = Inr [Some ''The Cat'', Some ''on the'']"
    unfolding str_in_iff[symmetric]
    by (simp add: lower_def lower_char_def capitals_def smalls_def)
  finally have first: "get_states ?a ''title'' ''THE'' = Inr [Some ''The Cat'', Some ''on the'']" .
  let ?es = "[(Some ([CHR 0xC9] @ ''t'' @ [CHR 0xC9]), [(Some ''x'', 1::int)]),
              (Some ''ete'', [(Some ''y'', 1)])]"
  let ?b = "\<lparr>settings = JNull, state_separator = '' '', nodes = [(''title'', ?es)],
              backward = None\<rparr>"
  have a': "map_of (nodes ?b) ''title'' = Some ?es" by simp
  have b': "\<forall>bw. backward ?b = Some bw \<longrightarrow> map_of bw ''title'' \<noteq> None" by simp
  have c': "None \<notin> set (map fst ?es)" by simp
  have "get_states ?b ''title'' [CHR 0xE9, CHR ''T''] =
        Inr (filter (\<lambda>k. case k of None \<Rightarrow> False
                         | Some key \<Rightarrow> \<exists>p q. lower key = p @ lower [CHR 0xE9, CHR ''T''] @ q)
               (map fst ?es))"
    using get_states_keys[of ?b "''title''" ?es "[CHR 0xE9, CHR ''T'']"] a' b' c' by blast
  also have "\<dots> = Inr [Some ([CHR 0xC9] @ ''t'' @ [CHR 0xC9])]"
    unfolding str_in_iff[symmetric]
    by (simp add: lower_def lower_char_def capitals_def smalls_def)
  finally have second: "get_states ?b ''title'' [CHR 0xE9, CHR ''T'']
                          = Inr [Some ([CHR 0xC9] @ ''t'' @ [CHR 0xC9])]" .
  from first second show ?thesis by simp
qed

text \<open>
  The claim as stated fails on a store whose forward map has the dataset and whose
  backward map, present, does not: the dataset exists and \<open>get_states\<close> raises
  \<open>KeyError\<close>. The constructor makes such a store from given nodes and \<open>backward=True\<close>.
\<close>

theorem get_states_keys_counterexample:
  "JsonStorage [CHR 0x01] (Some [(''body'', scenario_body)]) (BBool True) JNull
     = Inr (scenario_store\<lparr>backward := Some []\<rparr>)
   \<and> map_of (nodes (scenario_store\<lparr>backward := Some []\<rparr>)) ''body'' = Some scenario_body
   \<and> get_states (scenario_store\<lparr>backward := Some []\<rparr>) ''body'' ''th'' = Inl KeyError"
  by (simp add: JsonStorage_def scenario_store_def get_states_def get_dataset_def
      do_get_dataset_def)

section \<open>Hydration of a counter\<close>

lemma dict_set_fresh: "k \<notin> fst ` set d \<Longrightarrow> dict_set k v d = d @ [(k, v)]"
  by (induction d) auto

lemma foldl_dict_set_distinct:
  "distinct (map fst (acc @ kvs)) \<Longrightarrow>
   foldl (\<lambda>d kv. dict_set (fst kv) (snd kv) d) acc kvs = acc @ kvs"
proof (induction kvs arbitrary: acc)
  case Nil
  then show ?case by simp
next
  case (Cons kv kvs)
  have "fst kv \<notin> fst ` set acc" using Cons.prems by auto
  then have "dict_set (fst kv) (snd kv) acc = acc @ [kv]" by (simp add: dict_set_fresh)
  moreover have "distinct (map fst ((acc @ [kv]) @ kvs))" using Cons.prems by simp
  ultimately show ?case using Cons.IH[of "acc @ [kv]"] by simp
qed

lemma dict_of_items_distinct: "distinct (map fst kvs) \<Longrightarrow> dict_of_items kvs = kvs"
  using foldl_dict_set_distinct[of "[]" kvs] by (simp add: dict_of_items_def)

lemma collect_map:
  "(\<And>x. x \<in> set xs \<Longrightarrow> f x = Inr (g x)) \<Longrightarrow> collect (map f xs) = Inr (map g xs)"
  by (induction xs) auto

lemma hydrate_key_inj: "hydrate_key a = hydrate_key b \<Longrightarrow> a = b"
  by (auto simp: hydrate_key_def split: if_splits)

lemma distinct_hydrated:
  "distinct (map fst dist) \<Longrightarrow> distinct (map fst (map (\<lambda>(t, c). (hydrate_key t, c)) dist))"
proof -
  assume d: "distinct (map fst dist)"
  have "map fst (map (\<lambda>(t, c). (hydrate_key t, c)) dist) = map hydrate_key (map fst dist)"
    by (induction dist) auto
  moreover have "inj_on hydrate_key (set (map fst dist))"
    by (rule inj_onI) (rule hydrate_key_inj)
  ultimately show ?thesis using d by (metis distinct_map)
qed

lemma py_zip_two:
  "py_zip [map f xs, map g xs] = map (\<lambda>x. [f x, g x]) xs"
  by (auto simp: py_zip_def intro!: nth_equalityI)

lemma counterify_dict:
  assumes "distinct (map fst dist)"
  shows "counterify (JObj (map (\<lambda>(t, c). (t, JInt c)) dist))
           = Inr (map (\<lambda>(t, c). (hydrate_key t, c)) dist)"
proof (cases dist)
  case Nil
  then show ?thesis by (simp add: counterify_def)
next
  case (Cons a as)
  have c: "collect (map (\<lambda>(key, val). counter_entry (JStr key) val)
                     (map (\<lambda>(t, c). (t, JInt c)) dist))
             = Inr (map (\<lambda>(t, c). (hydrate_key t, c)) dist)"
    unfolding map_map by (rule collect_map) (auto simp: counter_entry_def)
  show ?thesis
    using Cons c dict_of_items_distinct[OF distinct_hydrated[OF assms]]
    by (simp add: counterify_def)
qed

lemma counterify_arrays:
  assumes "distinct (map fst dist)"
  shows "counterify (JArr [JArr (map (\<lambda>(t, c). JInt c) dist), JArr (map (\<lambda>(t, c). JStr t) dist)])
           = Inr (map (\<lambda>(t, c). (hydrate_key t, c)) dist)"
proof -
  have c: "collect (map row_entry (map (\<lambda>x. [(\<lambda>(t, c). JInt c) x, (\<lambda>(t, c). JStr t) x]) dist))
             = Inr (map (\<lambda>(t, c). (hydrate_key t, c)) dist)"
    unfolding map_map by (rule collect_map) (auto simp: counter_entry_def)
  show ?thesis
    using c dict_of_items_distinct[OF distinct_hydrated[OF assms]]
    by (simp add: counterify_def py_zip_two)
qed

lemma counterify_pair:
  "counterify (JArr [JInt c, JStr t]) = Inr [(hydrate_key t, c)]"
  by (simp add: counterify_def counter_entry_def dict_of_items_def)

text \<open>
  C9. A distribution is a list of (token text, count) pairs with distinct token texts,
  the reserved string standing for the null token. Its three encodings, (a) the object
  from token to count, (b) the two parallel arrays of counts and of tokens, and (c) for a
  single entry the array of the count and the token, are all hydrated by \<open>counterify\<close>
  to the same counter: the entries in their order, with \<open>None\<close> in place of the
  reserved string.
\<close>

theorem counterify_encodings:
  assumes "distinct (map fst dist)"
  shows "counterify (JObj (map (\<lambda>(t, c). (t, JInt c)) dist))
           = Inr (map (\<lambda>(t, c). (hydrate_key t, c)) dist)
       \<and> counterify (JArr [JArr (map (\<lambda>(t, c). JInt c) dist),
                            JArr (map (\<lambda>(t, c). JStr t) dist)])
           = Inr (map (\<lambda>(t, c). (hydrate_key t, c)) dist)
       \<and> (\<forall>t c. dist = [(t, c)] \<longrightarrow>
             counterify (JArr [JInt c, JStr t]) = Inr (map (\<lambda>(t, c). (hydrate_key t, c)) dist))"
  using counterify_dict[OF assms] counterify_arrays[OF assms] counterify_pair by auto

theorem counterify_encodings_witness:
  "counterify (JObj [(''cat'', JInt 2), (NONE_VALUE, JInt 1)]) = Inr [(Some ''cat'', 2), (None, 1)]
   \<and> counterify (JArr [JArr [JInt 2, JInt 1], JArr [JStr ''cat'', JStr NONE_VALUE]])
       = Inr [(Some ''cat'', 2), (None, 1)]
   \<and> counterify (JObj [(''cat'', JInt 2)]) = Inr [(Some ''cat'', 2)]
   \<and> counterify (JArr [JArr [JInt 2], JArr [JStr ''cat'']]) = Inr [(Some ''cat'', 2)]
   \<and> counterify (JArr [JInt 2, JStr ''cat'']) = Inr [(Some ''cat'', 2)]"
proof -
  have d2: "distinct (map fst [(''cat'', 2::int), (NONE_VALUE, 1)])"
    by (simp add: NONE_VALUE_def)
  have d1: "distinct (map fst [(''cat'', 2::int)])" by simp
  show ?thesis
    using counterify_encodings[OF d2] counterify_encodings[OF d1]
    by (simp add: hydrate_key_def NONE_VALUE_def)
qed

section \<open>One round of ingestion, map by map\<close>

lemma add_links_step_Link:
  "add_links_step st p (Link dataset src dst) =
     (case backward st of
        None \<Rightarrow>
          (st\<lparr>nodes := linked (p @ dataset) (Some (join_state st src)) dst (nodes st)\<rparr>, None)
      | Some b \<Rightarrow>
          (case dst of
             None \<Rightarrow>
               (st\<lparr>nodes := linked (p @ dataset) (Some (join_state st src)) None (nodes st),
                   backward := Some (created (p @ dataset) b)\<rparr>, None)
           | Some t \<Rightarrow>
               (case src of
                  [] \<Rightarrow>
                    (st\<lparr>nodes := created (p @ dataset) (nodes st),
                        backward := Some (created (p @ dataset) b)\<rparr>, Some StopIteration)
                | f # rest \<Rightarrow>
                    (st\<lparr>nodes := linked (p @ dataset) (Some (join_state st src)) dst (nodes st),
                        backward := Some (linked (p @ dataset)
                                            (Some (join_state st (rest @ [t]))) (Some f) b)\<rparr>,
                     None))))"
  by (auto simp: add_links_step_def get_dataset_create linked_def created_def join_state_def Let_def
      split: option.splits list.splits)

lemma add_links_step_NotATriple:
  "fst (add_links_step st p (NotATriple n)) = st"
  by (simp add: add_links_step_def)


lemma step_fields:
  "settings (fst (add_links_step st p item)) = settings st
   \<and> state_separator (fst (add_links_step st p item)) = state_separator st
   \<and> (backward (fst (add_links_step st p item)) = None \<longleftrightarrow> backward st = None)"
proof (cases item)
  case (NotATriple k)
  then show ?thesis by (simp add: add_links_step_NotATriple)
next
  case (Link dataset src dst)
  show ?thesis
    unfolding Link add_links_step_Link by (auto split: option.splits list.splits)
qed


lemma add_links_fields:
  "settings (fst (add_links st links p)) = settings st
   \<and> state_separator (fst (add_links st links p)) = state_separator st
   \<and> (backward (fst (add_links st links p)) = None \<longleftrightarrow> backward st = None)"
proof (induction links arbitrary: st)
  case Nil
  then show ?case by simp
next
  case (Cons item links)
  note s = step_fields[of st p item]
  obtain st' e where r: "add_links_step st p item = (st', e)" by (cases "add_links_step st p item")
  show ?case
  proof (cases e)
    case None
    with r s Cons.IH[of st'] show ?thesis by simp
  next
    case (Some a)
    with r s show ?thesis by simp
  qed
qed



section \<open>The maps stay dictionaries\<close>







section \<open>Saving and loading\<close>


















section \<open>Recorded weights after one round\<close>

lemma map_of_counter_add:
  "map_of (counter_add c t n) = (map_of c)(t \<mapsto> (case map_of c t of None \<Rightarrow> 0 | Some m \<Rightarrow> m) + n)"
  by (simp add: counter_add_def map_of_dict_set)

lemma map_of_add_link:
  "map_of (add_link ds key tok n) =
     (map_of ds)(key \<mapsto> counter_add (case map_of ds key of None \<Rightarrow> [] | Some c \<Rightarrow> c) tok n)"
  by (auto simp: add_link_def Let_def map_of_dict_set fun_eq_iff split: option.splits)

lemma map_of_created:
  "map_of (created name d) n =
     (if n = name then Some (case map_of d name of None \<Rightarrow> [] | Some v \<Rightarrow> v) else map_of d n)"
  by (auto simp: created_def map_of_dict_set split: option.splits)

lemma entry_created: "entry (created name d) n k t = entry d n k t"
  by (cases "map_of d name") (simp_all add: entry_def map_of_created)

lemma map_of_linked:
  "map_of (linked name key tok d) n =
     (if n = name
      then Some (add_link (case map_of d name of None \<Rightarrow> [] | Some v \<Rightarrow> v) key tok 1)
      else map_of d n)"
  by (simp add: linked_def map_of_dict_set map_of_created)

lemma entry_linked:
  "entry (linked name key tok d) n k t =
     (if n = name \<and> k = key \<and> t = tok
      then Some ((case entry d name key tok of None \<Rightarrow> 0 | Some m \<Rightarrow> m) + 1)
      else entry d n k t)"
proof (cases "n = name")
  case False
  then show ?thesis by (simp add: entry_def map_of_linked)
next
  case True
  show ?thesis
  proof (cases "map_of d name")
    case None
    with True show ?thesis
      by (simp add: entry_def map_of_linked map_of_add_link map_of_counter_add)
  next
    case (Some ds)
    with True show ?thesis
      by (cases "map_of ds key")
        (simp_all add: entry_def map_of_linked map_of_add_link map_of_counter_add)
  qed
qed

section \<open>Encoding of states is injective\<close>

lemma borderedI:
  assumes "sep = w @ u" and "w \<noteq> []" and "u \<noteq> []" and "take (length u) sep = u"
  shows "bordered sep"
proof -
  let ?n = "length u"
  have lu: "0 < length u" and lw: "0 < length w" using assms(2,3) by simp_all
  have ls: "length sep = length w + length u" using assms(1) by simp
  have "1 \<le> ?n \<and> ?n < length sep" using lu lw ls by linarith
  then have "?n \<in> {1..<length sep}" by (simp only: atLeastLessThan_iff)
  then have "?n \<in> set [1..<length sep]" by (simp only: set_upt)
  moreover have "drop (length sep - ?n) sep = u" using assms(1) by simp
  ultimately show ?thesis using assms(4) unfolding bordered_def list_ex_iff by metis
qed

lemma overlap_empty:
  assumes nb: "\<not> bordered sep" and ny: "\<not> str_in sep (x @ w)"
    and eq: "sep @ A = w @ sep @ B"
  shows "w = []"
proof (rule ccontr)
  assume w: "w \<noteq> []"
  from eq obtain u where "(sep = w @ u \<and> u @ A = sep @ B) \<or> (sep @ u = w \<and> A = u @ sep @ B)"
    using iffD1[OF append_eq_append_conv2[of sep A w "sep @ B"]] by blast
  then show False
  proof
    assume a: "sep = w @ u \<and> u @ A = sep @ B"
    show False
    proof (cases "u = []")
      case True
      with a have "x @ w = x @ sep @ []" by simp
      with ny show False unfolding str_in_iff by blast
    next
      case False
      from a have "u @ A = w @ u @ B" by simp
      then have "take (length u) (u @ A) = take (length u) (w @ u @ B)" by simp
      then have "u = take (length u) (w @ u)" by simp
      with a have "take (length u) sep = u" by simp
      with a w False have "bordered sep" by (intro borderedI[of sep w u]) simp_all
      with nb show False ..
    qed
  next
    assume "sep @ u = w \<and> A = u @ sep @ B"
    then have "x @ w = x @ sep @ u" by simp
    with ny show False unfolding str_in_iff by blast
  qed
qed

lemma head_unique:
  assumes nb: "\<not> bordered sep" and nx: "\<not> str_in sep x" and ny: "\<not> str_in sep y"
    and eq: "x @ sep @ A = y @ sep @ B"
  shows "x = y \<and> A = B"
proof -
  from eq obtain w where "(x = y @ w \<and> w @ sep @ A = sep @ B) \<or> (x @ w = y \<and> sep @ A = w @ sep @ B)"
    using iffD1[OF append_eq_append_conv2[of x "sep @ A" y "sep @ B"]] by blast
  then show ?thesis
  proof
    assume a: "x = y @ w \<and> w @ sep @ A = sep @ B"
    then have "w = []" using overlap_empty[OF nb, of y w B A] nx by simp
    with a show ?thesis by simp
  next
    assume a: "x @ w = y \<and> sep @ A = w @ sep @ B"
    then have "w = []" using overlap_empty[OF nb, of x w A B] ny by simp
    with a show ?thesis by simp
  qed
qed

lemma str_join_Cons:
  "ys \<noteq> [] \<Longrightarrow> str_join sep (x # ys) = x @ sep @ str_join sep ys"
  by (cases ys) simp_all

lemma str_join_inj:
  assumes nb: "\<not> bordered sep"
  shows "xs \<noteq> [] \<Longrightarrow> ys \<noteq> [] \<Longrightarrow>
         list_all (\<lambda>t. \<not> str_in sep t) xs \<Longrightarrow> list_all (\<lambda>t. \<not> str_in sep t) ys \<Longrightarrow>
         str_join sep xs = str_join sep ys \<Longrightarrow> xs = ys"
proof (induction xs arbitrary: ys)
  case Nil
  then show ?case by simp
next
  case (Cons x xs)
  from Cons.prems(2) obtain y ys' where ys: "ys = y # ys'" by (cases ys) auto
  have sx: "\<not> str_in sep x" and sy: "\<not> str_in sep y"
    using Cons.prems(3,4) ys by simp_all
  show ?case
  proof (cases "xs = []")
    case xe: True
    show ?thesis
    proof (cases "ys' = []")
      case True
      with xe ys Cons.prems(5) show ?thesis by simp
    next
      case False
      with xe ys Cons.prems(5) have "x = y @ sep @ str_join sep ys'"
        by (simp add: str_join_Cons)
      with sx show ?thesis unfolding str_in_iff by blast
    qed
  next
    case xn: False
    show ?thesis
    proof (cases "ys' = []")
      case True
      with xn ys Cons.prems(5) have "y = x @ sep @ str_join sep xs"
        by (simp add: str_join_Cons)
      with sy show ?thesis unfolding str_in_iff by blast
    next
      case False
      with xn ys Cons.prems(5)
      have "x @ sep @ str_join sep xs = y @ sep @ str_join sep ys'"
        by (simp add: str_join_Cons)
      from head_unique[OF nb sx sy this]
      have "x = y" "str_join sep xs = str_join sep ys'" by simp_all
      moreover have "xs = ys'"
        using Cons.IH[OF xn False _ _ \<open>str_join sep xs = str_join sep ys'\<close>]
          Cons.prems(3,4) ys by simp
      ultimately show ?thesis using ys by simp
    qed
  qed
qed

section \<open>Backward symmetry\<close>

lemma symmetric_created:
  "backward_symmetric sep fw bw \<Longrightarrow> backward_symmetric sep (created n1 fw) (created n2 bw)"
  by (simp add: backward_symmetric_def entry_created)

lemma symmetric_linked_None:
  "backward_symmetric sep fw bw \<Longrightarrow> backward_symmetric sep (linked n1 key None fw) (created n2 bw)"
  by (simp add: backward_symmetric_def entry_created entry_linked)

lemma joined_context:
  assumes nb: "\<not> bordered sep"
    and c: "ctx \<noteq> []" "sep_free sep (ctx @ [t'])"
    and l: "sep_free sep (f # rest @ [t])"
  shows "(str_join sep ctx = str_join sep (f # rest) \<and> t' = t) \<longleftrightarrow> (ctx = f # rest \<and> t' = t)"
    and "(str_join sep (tl ctx @ [t']) = str_join sep (rest @ [t]) \<and> hd ctx = f)
           \<longleftrightarrow> (ctx = f # rest \<and> t' = t)"
proof -
  have a: "list_all (\<lambda>t. \<not> str_in sep t) ctx" "list_all (\<lambda>t. \<not> str_in sep t) (f # rest)"
    "list_all (\<lambda>t. \<not> str_in sep t) (tl ctx @ [t'])" "list_all (\<lambda>t. \<not> str_in sep t) (rest @ [t])"
    using c l by (cases ctx; simp add: sep_free_def)+
  show "(str_join sep ctx = str_join sep (f # rest) \<and> t' = t) \<longleftrightarrow> (ctx = f # rest \<and> t' = t)"
    using str_join_inj[OF nb c(1) _ a(1,2)] by auto
  have "tl ctx @ [t'] = rest @ [t]" if "str_join sep (tl ctx @ [t']) = str_join sep (rest @ [t])"
    using str_join_inj[OF nb _ _ a(3,4) that] by simp
  then show "(str_join sep (tl ctx @ [t']) = str_join sep (rest @ [t]) \<and> hd ctx = f)
           \<longleftrightarrow> (ctx = f # rest \<and> t' = t)"
    using c(1) by (cases ctx) auto
qed

lemma symmetric_linked:
  assumes nb: "\<not> bordered sep"
    and inv: "backward_symmetric sep fw bw"
    and l: "sep_free sep (f # rest @ [t])"
  shows "backward_symmetric sep
           (linked name (Some (str_join sep (f # rest))) (Some t) fw)
           (linked name (Some (str_join sep (rest @ [t]))) (Some f) bw)"
proof -
  let ?K = "Some (str_join sep (f # rest))" and ?R = "Some (str_join sep (rest @ [t]))"
  from inv have i1: "\<And>n ctx t'. ctx \<noteq> [] \<Longrightarrow> sep_free sep (ctx @ [t']) \<Longrightarrow>
         entry fw n (Some (str_join sep ctx)) (Some t')
           = entry bw n (Some (str_join sep (tl ctx @ [t']))) (Some (hd ctx))"
    and i2: "\<And>n key t' c. entry fw n key (Some t') = Some c \<Longrightarrow>
            \<exists>ctx. ctx \<noteq> [] \<and> sep_free sep (ctx @ [t']) \<and> key = Some (str_join sep ctx)"
    and i3: "\<And>n key tok c. entry bw n key tok = Some c \<Longrightarrow>
            \<exists>f rest t. sep_free sep (f # rest @ [t])
                       \<and> key = Some (str_join sep (rest @ [t])) \<and> tok = Some f"
    unfolding backward_symmetric_def by blast+
  have old: "entry fw name ?K (Some t) = entry bw name ?R (Some f)"
    using i1[of "f # rest" t name] l by simp
  have c1: "entry (linked name ?K (Some t) fw) n (Some (str_join sep ctx)) (Some t')
           = entry (linked name ?R (Some f) bw) n (Some (str_join sep (tl ctx @ [t']))) (Some (hd ctx))"
    if c: "ctx \<noteq> []" "sep_free sep (ctx @ [t'])" for n ctx t'
  proof (cases "n = name \<and> ctx = f # rest \<and> t' = t")
    case True
    then show ?thesis using old by (simp add: entry_linked)
  next
    case False
    with joined_context[OF nb c l] i1[OF c, of n] show ?thesis
      by (auto simp: entry_linked)
  qed
  have c2: "\<exists>ctx. ctx \<noteq> [] \<and> sep_free sep (ctx @ [t']) \<and> key = Some (str_join sep ctx)"
    if e: "entry (linked name ?K (Some t) fw) n key (Some t') = Some c" for n key t' c
  proof (cases "n = name \<and> key = ?K \<and> t' = t")
    case True
    then have "f # rest \<noteq> [] \<and> sep_free sep ((f # rest) @ [t']) \<and> key = Some (str_join sep (f # rest))"
      using l by simp
    then show ?thesis by blast
  next
    case False
    with e have "entry fw n key (Some t') = Some c" by (auto simp: entry_linked split: if_splits)
    then show ?thesis by (rule i2)
  qed
  have c3: "\<exists>f' rest' t'. sep_free sep (f' # rest' @ [t'])
                       \<and> key = Some (str_join sep (rest' @ [t'])) \<and> tok = Some f'"
    if e: "entry (linked name ?R (Some f) bw) n key tok = Some c" for n key tok c
  proof (cases "n = name \<and> key = ?R \<and> tok = Some f")
    case True
    with l show ?thesis by blast
  next
    case False
    with e have "entry bw n key tok = Some c" by (auto simp: entry_linked split: if_splits)
    then show ?thesis by (rule i3)
  qed
  show ?thesis
    unfolding backward_symmetric_def using c1 c2 c3 by blast
qed

lemma symmetric_step:
  assumes nb: "\<not> bordered sep" and sep: "state_separator st = sep"
    and b: "backward st = Some bw" and inv: "backward_symmetric sep (nodes st) bw"
    and lf: "link_sep_free sep item"
  shows "\<exists>bw'. backward (fst (add_links_step st p item)) = Some bw'
           \<and> backward_symmetric sep (nodes (fst (add_links_step st p item))) bw'"
proof (cases item)
  case (NotATriple k)
  with b inv show ?thesis by (simp add: add_links_step_NotATriple)
next
  case (Link dataset src dst)
  show ?thesis
  proof (cases dst)
    case None
    with Link b inv show ?thesis
      by (simp add: add_links_step_Link symmetric_linked_None)
  next
    case (Some t)
    show ?thesis
    proof (cases src)
      case Nil
      with Link Some b inv show ?thesis
        by (simp add: add_links_step_Link symmetric_created)
    next
      case (Cons f rest)
      have "sep_free sep (f # rest @ [t])"
        using lf Link Some Cons by (simp add: link_sep_free_def sep_free_def)
      from symmetric_linked[OF nb inv this, of "p @ dataset"] Link Some Cons b sep
      show ?thesis by (simp add: add_links_step_Link join_state_def)
    qed
  qed
qed

lemma symmetric_add_links:
  assumes nb: "\<not> bordered sep"
  shows "state_separator st = sep \<Longrightarrow> backward st = Some bw \<Longrightarrow>
         backward_symmetric sep (nodes st) bw \<Longrightarrow>
         \<forall>item\<in>set links. link_sep_free sep item \<Longrightarrow>
         \<exists>bw'. backward (fst (add_links st links p)) = Some bw'
           \<and> backward_symmetric sep (nodes (fst (add_links st links p))) bw'"
proof (induction links arbitrary: st bw)
  case Nil
  then show ?case by simp
next
  case (Cons item links)
  obtain st' e where r: "add_links_step st p item = (st', e)" by (cases "add_links_step st p item")
  from symmetric_step[OF nb Cons.prems(1-3), of item p] Cons.prems(4) r
  obtain bw' where s: "backward st' = Some bw'" "backward_symmetric sep (nodes st') bw'"
    by auto
  have sp: "state_separator st' = sep"
    using step_fields[of st p item] r Cons.prems(1) by simp
  show ?case
  proof (cases e)
    case None
    with r Cons.IH[OF sp s] Cons.prems(4) show ?thesis by simp
  next
    case (Some a)
    with r s show ?thesis by simp
  qed
qed

lemma symmetric_after_calls:
  assumes nb: "\<not> bordered sep"
  shows "state_separator st = sep \<Longrightarrow> backward st = Some bw \<Longrightarrow>
         backward_symmetric sep (nodes st) bw \<Longrightarrow>
         \<forall>c\<in>set calls. \<forall>item\<in>set (fst c). link_sep_free sep item \<Longrightarrow>
         \<exists>bw'. backward (after_calls st calls) = Some bw'
           \<and> backward_symmetric sep (nodes (after_calls st calls)) bw'"
proof (induction calls arbitrary: st bw)
  case Nil
  then show ?case by (simp add: after_calls_def)
next
  case (Cons c calls)
  let ?st' = "fst (add_links st (fst c) (snd c))"
  from symmetric_add_links[OF nb Cons.prems(1-3), of "fst c" "snd c"] Cons.prems(4)
  obtain bw' where s: "backward ?st' = Some bw'" "backward_symmetric sep (nodes ?st') bw'"
    by auto
  have sp: "state_separator ?st' = sep"
    using add_links_fields[of st "fst c" "snd c"] Cons.prems(1) by simp
  from Cons.IH[OF sp s] Cons.prems(4) show ?case by (simp add: after_calls_def)
qed

lemma symmetric_empty: "backward_symmetric sep [] []"
  by (simp add: backward_symmetric_def entry_def)

text \<open>
  C3, as amended. Let the separator be without a border (no proper non-empty prefix of
  it is also its suffix; every separator of one character is such),
  and let a store with backward support start empty and undergo any sequence of calls of
  \<open>add_links\<close> whose context tokens and targets do not contain the separator. Then
  every forward entry \<open>forward[key][t] = c\<close> with \<open>t\<close> not \<open>None\<close> has a context
  \<open>f # rest\<close> of separator-free tokens that \<open>key\<close> encodes, and
  \<open>backward[encode(rest @ [t])][f] = c\<close>; and every backward entry is
  \<open>backward[encode(rest @ [t])][f] = c\<close> for such tokens, with
  \<open>forward[encode(f # rest)][t] = c\<close>.
\<close>

theorem backward_symmetry:
  assumes "nodes st0 = []" and "backward st0 = Some []"
    and "state_separator st0 = sep" and "\<not> bordered sep"
    and "\<forall>c\<in>set calls. \<forall>item\<in>set (fst c). link_sep_free sep item"
    and "st = after_calls st0 calls"
  shows "\<exists>bw. backward st = Some bw
     \<and> (\<forall>name key t c. entry (nodes st) name key (Some t) = Some c \<longrightarrow>
          (\<exists>f rest. sep_free sep (f # rest @ [t]) \<and> key = Some (str_join sep (f # rest))
                  \<and> entry bw name (Some (str_join sep (rest @ [t]))) (Some f) = Some c))
     \<and> (\<forall>name key tok c. entry bw name key tok = Some c \<longrightarrow>
          (\<exists>f rest t. sep_free sep (f # rest @ [t]) \<and> tok = Some f
                  \<and> key = Some (str_join sep (rest @ [t]))
                  \<and> entry (nodes st) name (Some (str_join sep (f # rest))) (Some t) = Some c))"
proof -
  have "backward_symmetric sep (nodes st0) []" using assms(1) by (simp add: symmetric_empty)
  from symmetric_after_calls[OF assms(4,3,2) this assms(5)] assms(6)
  obtain bw where bw: "backward st = Some bw" and inv: "backward_symmetric sep (nodes st) bw"
    by auto
  from inv have i1: "\<And>n ctx t'. ctx \<noteq> [] \<Longrightarrow> sep_free sep (ctx @ [t']) \<Longrightarrow>
         entry (nodes st) n (Some (str_join sep ctx)) (Some t')
           = entry bw n (Some (str_join sep (tl ctx @ [t']))) (Some (hd ctx))"
    and i2: "\<And>n key t' c. entry (nodes st) n key (Some t') = Some c \<Longrightarrow>
            \<exists>ctx. ctx \<noteq> [] \<and> sep_free sep (ctx @ [t']) \<and> key = Some (str_join sep ctx)"
    and i3: "\<And>n key tok c. entry bw n key tok = Some c \<Longrightarrow>
            \<exists>f rest t. sep_free sep (f # rest @ [t])
                       \<and> key = Some (str_join sep (rest @ [t])) \<and> tok = Some f"
    unfolding backward_symmetric_def by blast+
  have a: "\<exists>f rest. sep_free sep (f # rest @ [t]) \<and> key = Some (str_join sep (f # rest))
                  \<and> entry bw name (Some (str_join sep (rest @ [t]))) (Some f) = Some c"
    if e: "entry (nodes st) name key (Some t) = Some c" for name key t c
  proof -
    from i2[OF e] obtain ctx where c: "ctx \<noteq> []" "sep_free sep (ctx @ [t])"
      "key = Some (str_join sep ctx)" by blast
    then obtain f rest where fr: "ctx = f # rest" by (cases ctx) auto
    from i1[OF c(1,2), of name] e c(3) fr
    have "entry bw name (Some (str_join sep (rest @ [t]))) (Some f) = Some c" by simp
    with c fr show ?thesis by auto
  qed
  have b: "\<exists>f rest t. sep_free sep (f # rest @ [t]) \<and> tok = Some f
                  \<and> key = Some (str_join sep (rest @ [t]))
                  \<and> entry (nodes st) name (Some (str_join sep (f # rest))) (Some t) = Some c"
    if e: "entry bw name key tok = Some c" for name key tok c
  proof -
    from i3[OF e] obtain f rest t where x: "sep_free sep (f # rest @ [t])"
      "key = Some (str_join sep (rest @ [t]))" "tok = Some f" by blast
    from i1[of "f # rest" t name] x e
    have "entry (nodes st) name (Some (str_join sep (f # rest))) (Some t) = Some c" by simp
    with x show ?thesis by blast
  qed
  from bw a b show ?thesis by blast
qed

theorem backward_symmetry_witness:
  "after_calls \<lparr>settings = JNull, state_separator = [CHR 0x01], nodes = [], backward = Some []\<rparr>
     [(scenario_links, [])]
   = \<lparr>settings = JNull, state_separator = [CHR 0x01], nodes = [(''body'', scenario_body)],
      backward = Some [(''body'', [(Some ([CHR 0x01] @ ''the''), [(Some [], 1)]),
                                   (Some (''the'' @ [CHR 0x01] @ ''cat''), [(Some [], 1)])])]\<rparr>
   \<and> entry [(''body'', scenario_body)] ''body''
         (Some (str_join [CHR 0x01] ['''', ''the''])) (Some ''cat'') = Some 1
   \<and> entry [(''body'', [(Some ([CHR 0x01] @ ''the''), [(Some [], 1)]),
                          (Some (''the'' @ [CHR 0x01] @ ''cat''), [(Some [], 1)])])] ''body''
         (Some (str_join [CHR 0x01] [''the'', ''cat''])) (Some []) = Some 1"
proof -
  let ?fresh = "\<lparr>settings = JNull, state_separator = [CHR 0x01], nodes = [], backward = Some []\<rparr>"
  let ?built = "\<lparr>settings = JNull, state_separator = [CHR 0x01], nodes = [(''body'', scenario_body)],
      backward = Some [(''body'', [(Some ([CHR 0x01] @ ''the''), [(Some [], 1)]),
                                   (Some (''the'' @ [CHR 0x01] @ ''cat''), [(Some [], 1)])])]\<rparr>"
  have n: "nodes ?fresh = []" "backward ?fresh = Some []" "state_separator ?fresh = [CHR 0x01]"
    by simp_all
  have u: "\<not> bordered [CHR 0x01]" by (simp add: bordered_def)
  have l: "\<forall>c\<in>set [(scenario_links, [])]. \<forall>item\<in>set (fst c). link_sep_free [CHR 0x01] item"
    by (simp add: scenario_links_def link_sep_free_def)
  have a: "?built = after_calls ?fresh [(scenario_links, [])]"
    by (simp add: after_calls_def scenario_links_def scenario_body_def ingest_defs)
  have e1: "entry [(''body'', scenario_body)] ''body''
              (Some (str_join [CHR 0x01] ['''', ''the''])) (Some ''cat'') = Some 1"
    by (simp add: entry_def scenario_body_def)
  have e2: "entry [(''body'', [(Some ([CHR 0x01] @ ''the''), [(Some [], 1)]),
                               (Some (''the'' @ [CHR 0x01] @ ''cat''), [(Some [], 1)])])] ''body''
              (Some (str_join [CHR 0x01] [''the'', ''cat''])) (Some []) = Some 1"
    by (simp add: entry_def)
  from backward_symmetry[OF n u l a] have "\<exists>bw. backward ?built = Some bw" by blast
  with a[symmetric] e1 e2 show ?thesis by blast
qed

text \<open>
  The claim as stated fails for the separator \<open>"aa"\<close>, which none of the tokens
  \<open>"b"\<close>, \<open>"a"\<close>, \<open>"ba"\<close>, \<open>""\<close>, \<open>"x"\<close> contains: the contexts \<open>["b", "a"]\<close> and
  \<open>["ba", ""]\<close> have the same key \<open>"baaa"\<close>, so the forward entry for \<open>"x"\<close> has weight
  2, while the two backward entries have weight 1 each.
\<close>

theorem backward_symmetry_counterexample:
  "link_sep_free ''aa'' (Link ''d'' [''b'', ''a''] (Some ''x''))
   \<and> link_sep_free ''aa'' (Link ''d'' [''ba'', ''''] (Some ''x''))
   \<and> after_calls \<lparr>settings = JNull, state_separator = ''aa'', nodes = [], backward = Some []\<rparr>
         [([Link ''d'' [''b'', ''a''] (Some ''x''), Link ''d'' [''ba'', ''''] (Some ''x'')], [])]
       = \<lparr>settings = JNull, state_separator = ''aa'',
          nodes = [(''d'', [(Some ''baaa'', [(Some ''x'', 2)])])],
          backward = Some [(''d'', [(Some ''aaax'', [(Some ''b'', 1)]),
                                   (Some ''aax'', [(Some ''ba'', 1)])])]\<rparr>
   \<and> entry [(''d'', [(Some ''baaa'', [(Some ''x'', 2)])])] ''d''
         (Some (str_join ''aa'' [''b'', ''a''])) (Some ''x'') = Some 2
   \<and> entry [(''d'', [(Some ''aaax'', [(Some ''b'', 1)]), (Some ''aax'', [(Some ''ba'', 1)])])] ''d''
         (Some (str_join ''aa'' [''a'', ''x''])) (Some ''b'') = Some 1
   \<and> entry [(''d'', [(Some ''aaax'', [(Some ''b'', 1)]), (Some ''aax'', [(Some ''ba'', 1)])])] ''d''
         (Some (str_join ''aa'' ['''', ''x''])) (Some ''ba'') = Some 1"
  by (simp add: link_sep_free_def after_calls_def ingest_defs entry_def)

end
